theory Spec2Isabelle
  imports Complex_Main "HOL-Library.Multiset"
begin

section \<open>JavaScript numbers\<close>

text \<open>
  A JavaScript number is an IEEE double: a finite value, one of the two infinities, or
  NaN. A finite double denotes a real number, and the comparisons of the language compare
  the denoted values, so a finite number is kept as the real it denotes (the two zeros
  are one value; they compare equal in the language too).
\<close>

datatype jsnum = NaN | NInf | Fin real | PInf

text \<open>\<open>a < b\<close>: false as soon as one side is NaN.\<close>

fun js_lt :: "jsnum \<Rightarrow> jsnum \<Rightarrow> bool" where
  "js_lt NaN b = False"
| "js_lt a NaN = False"
| "js_lt (Fin x) (Fin y) = (x < y)"
| "js_lt NInf NInf = False"
| "js_lt NInf b = True"
| "js_lt a NInf = False"
| "js_lt PInf b = False"
| "js_lt a PInf = True"

text \<open>\<open>a === b\<close> on numbers: NaN equals nothing, itself included.\<close>

definition js_eq :: "jsnum \<Rightarrow> jsnum \<Rightarrow> bool" where
  "js_eq a b = (a \<noteq> NaN \<and> b \<noteq> NaN \<and> a = b)"

definition js_gt :: "jsnum \<Rightarrow> jsnum \<Rightarrow> bool" where
  "js_gt a b = js_lt b a"

definition js_le :: "jsnum \<Rightarrow> jsnum \<Rightarrow> bool" where
  "js_le a b = (js_lt a b \<or> js_eq a b)"

definition js_ge :: "jsnum \<Rightarrow> jsnum \<Rightarrow> bool" where
  "js_ge a b = js_le b a"

text \<open>
  \<open>a - b\<close>. The difference of two finite numbers is kept exact: the machine subtraction
  rounds it (and may overflow to an infinity), which never changes its sign, and the sign
  is all that the comparator of a sort reads.
\<close>

fun js_sub :: "jsnum \<Rightarrow> jsnum \<Rightarrow> jsnum" where
  "js_sub NaN b = NaN"
| "js_sub a NaN = NaN"
| "js_sub (Fin x) (Fin y) = Fin (x - y)"
| "js_sub PInf PInf = NaN"
| "js_sub NInf NInf = NaN"
| "js_sub PInf b = PInf"
| "js_sub NInf b = NInf"
| "js_sub a PInf = NInf"
| "js_sub a NInf = PInf"

text \<open>
  \<open>Math.round\<close>: the integer closest to the argument, a tie going up. The result is
  exact on doubles (a double of magnitude \<open>2^52\<close> or more is an integer already).
\<close>

fun js_round :: "jsnum \<Rightarrow> jsnum" where
  "js_round (Fin x) = Fin (of_int \<lfloor>x + 1 / 2\<rfloor>)"
| "js_round a = a"

section \<open>Arrays\<close>

text \<open>
  \<open>Array.prototype.sort\<close> with a comparator: the sort is stable, an element \<open>a\<close> goes
  after \<open>b\<close> when \<open>cmp a b > 0\<close>, and a NaN from the comparator counts as 0. Written as
  the stable insertion sort; on a consistent comparator every conforming engine returns
  this same array.
\<close>

fun js_insert :: "('a \<Rightarrow> 'a \<Rightarrow> jsnum) \<Rightarrow> 'a \<Rightarrow> 'a list \<Rightarrow> 'a list" where
  "js_insert cmp x [] = [x]"
| "js_insert cmp x (y # ys) =
     (if js_gt (cmp x y) (Fin 0) then y # js_insert cmp x ys else x # y # ys)"

definition js_sort :: "('a \<Rightarrow> 'a \<Rightarrow> jsnum) \<Rightarrow> 'a list \<Rightarrow> 'a list" where
  "js_sort cmp xs = foldr (js_insert cmp) xs []"

section \<open>Plan upgrade service\<close>

record SurveyPlan =
  planName :: string
  dailySurvey :: jsnum
  monthlyIncome :: jsnum
  dailyIncome :: jsnum
  earningPerSurvey :: string
  minimumWithdrawal :: jsnum
  price :: string
  description :: "string option"
  features :: "string list option"

text \<open>
  \<open>parseFloat\<close> is a built-in of the language; the service only compares what it returns.
  It is the parameter \<open>pf\<close> of every function below, so that each theorem holds for the
  built-in whatever it returns on a given text.
\<close>

definition planPrice :: "(string \<Rightarrow> jsnum) \<Rightarrow> SurveyPlan \<Rightarrow> jsnum" where
  "planPrice pf plan = pf (price plan)"

text \<open>
  The array \<open>paidPlans\<close> of \<open>getPlanByAmount\<close>: the copy of the plans, filtered and
  sorted. After the filter every price is a number greater than 0, so the comparator
  (the difference of two prices) is a consistent one.
\<close>

definition paidPlans :: "(string \<Rightarrow> jsnum) \<Rightarrow> SurveyPlan list \<Rightarrow> SurveyPlan list" where
  "paidPlans pf availablePlans =
     js_sort (\<lambda>a b. js_sub (pf (price a)) (pf (price b)))
       (filter (\<lambda>plan. js_gt (pf (price plan)) (Fin 0)) availablePlans)"

definition getPlanByAmount ::
  "(string \<Rightarrow> jsnum) \<Rightarrow> jsnum \<Rightarrow> SurveyPlan list \<Rightarrow> SurveyPlan option" where
  "getPlanByAmount pf amount availablePlans =
     (let paid = paidPlans pf availablePlans in
      case find (\<lambda>plan. js_eq (pf (price plan)) amount) paid of
        Some exactMatch \<Rightarrow> Some exactMatch
      | None \<Rightarrow>
         (case find (\<lambda>plan. js_ge (pf (price plan)) amount) paid of
            Some higherPlan \<Rightarrow> Some higherPlan
          | None \<Rightarrow> if length paid > 0 then Some (last paid) else None))"

record Validation =
  isValid :: bool
  message :: string

definition validateUpgrade ::
  "(string \<Rightarrow> jsnum) \<Rightarrow> string \<Rightarrow> string \<Rightarrow> SurveyPlan list \<Rightarrow> Validation" where
  "validateUpgrade pf currentPlanName targetPlanName availablePlans =
     (case (find (\<lambda>p. planName p = currentPlanName) availablePlans,
            find (\<lambda>p. planName p = targetPlanName) availablePlans) of
        (Some currentPlan, Some targetPlan) \<Rightarrow>
          if js_gt (pf (price currentPlan)) (pf (price targetPlan))
          then \<lparr>isValid = False, message = ''Cannot downgrade to a lower plan''\<rparr>
          else \<lparr>isValid = True, message = ''Upgrade validated successfully''\<rparr>
      | _ \<Rightarrow> \<lparr>isValid = False, message = ''Invalid plan selection''\<rparr>)"

text \<open>
  The body of \<open>processPlanUpgrade\<close>'s \<open>try\<close> block on an array of plans. The current plan
  is the fixed name of the source. Console output is not part of the model.
\<close>

record PlanUpgradeResult =
  success :: bool
  message :: string
  newPlan :: "SurveyPlan option"
  oldPlan :: "string option"

definition upgradeSteps ::
  "(string \<Rightarrow> jsnum) \<Rightarrow> string \<Rightarrow> jsnum \<Rightarrow> SurveyPlan list \<Rightarrow> PlanUpgradeResult" where
  "upgradeSteps pf userId verifiedAmount availablePlans =
     (case getPlanByAmount pf verifiedAmount availablePlans of
        None \<Rightarrow> \<lparr>success = False, message = ''No plan found for the verified amount'',
                  newPlan = None, oldPlan = None\<rparr>
      | Some targetPlan \<Rightarrow>
          (let currentPlanName = ''Starter'';
               validation = validateUpgrade pf currentPlanName (planName targetPlan) availablePlans
           in if \<not> Validation.isValid validation
              then \<lparr>success = False, message = Validation.message validation,
                    newPlan = None, oldPlan = None\<rparr>
              else \<lparr>success = True,
                    message = ''Plan successfully upgraded to '' @ planName targetPlan,
                    newPlan = Some targetPlan, oldPlan = Some currentPlanName\<rparr>))"

text \<open>
  The types of the source are erased when it runs: the array handed to the service may be
  \<open>null\<close> or \<open>undefined\<close> (here \<open>None\<close>), and so may each of its elements. Copying such an
  array with the spread, or reading \<open>price\<close> of such an element in the first callback of
  \<open>getPlanByAmount\<close>, throws a \<open>TypeError\<close>; this happens before anything else in the
  \<open>try\<close> block. The \<open>catch\<close> turns every thrown value into the generic failure, and the
  promise of the \<open>async\<close> function is fulfilled (\<open>Inr\<close>), not rejected (\<open>Inl\<close>).
\<close>

datatype js_error = TypeError

definition tryBlock ::
  "(string \<Rightarrow> jsnum) \<Rightarrow> string \<Rightarrow> jsnum \<Rightarrow> SurveyPlan option list option
     \<Rightarrow> js_error + PlanUpgradeResult" where
  "tryBlock pf userId verifiedAmount availablePlans =
     (case availablePlans of
        None \<Rightarrow> Inl TypeError
      | Some elems \<Rightarrow>
          (case those elems of
             None \<Rightarrow> Inl TypeError
           | Some plans \<Rightarrow> Inr (upgradeSteps pf userId verifiedAmount plans)))"

definition processPlanUpgrade ::
  "(string \<Rightarrow> jsnum) \<Rightarrow> string \<Rightarrow> jsnum \<Rightarrow> SurveyPlan option list option
     \<Rightarrow> js_error + PlanUpgradeResult" where
  "processPlanUpgrade pf userId verifiedAmount availablePlans =
     (case tryBlock pf userId verifiedAmount availablePlans of
        Inr result \<Rightarrow> Inr result
      | Inl error \<Rightarrow> Inr \<lparr>success = False, message = ''Failed to process plan upgrade'',
                          newPlan = None, oldPlan = None\<rparr>)"

section \<open>Strings\<close>

text \<open>
  A string of the program is a \<open>string\<close> here: a list of 8-bit characters, the code
  points up to U+00FF. White space is what \<open>trim\<close> and \<open>\s\<close> take for it among these
  characters: tab, line feed, vertical tab, form feed, carriage return, space and no-break
  space. \<open>toUpper\<close> and \<open>toLower\<close> map the ASCII letters; they serve the patterns, whose
  letters are ASCII.
\<close>

definition case_table :: "(char \<times> char) list" where
  "case_table = zip ''abcdefghijklmnopqrstuvwxyz'' ''ABCDEFGHIJKLMNOPQRSTUVWXYZ''"

definition toUpper :: "char \<Rightarrow> char" where
  "toUpper c = (case map_of case_table c of Some u \<Rightarrow> u | None \<Rightarrow> c)"

definition toLower :: "char \<Rightarrow> char" where
  "toLower c = (case map_of (map (\<lambda>(l, u). (u, l)) case_table) c of Some l \<Rightarrow> l | None \<Rightarrow> c)"

text \<open>
  \<open>String.prototype.toUpperCase\<close> on these characters. The result is a sequence of UTF-16
  code units, since it leaves the 8-bit range: the letters a to z and the accented letters
  U+00E0 to U+00FE (the division sign U+00F7 apart) go to their capitals 32 places below;
  the sharp s U+00DF becomes the two letters SS; the micro sign U+00B5 becomes U+039C and
  the y with diaeresis U+00FF becomes U+0178; every other character is kept.
\<close>

type_synonym code_unit = nat

definition latin_table :: "(char \<times> char) list" where
  "latin_table =
     zip [CHR 0xE0, CHR 0xE1, CHR 0xE2, CHR 0xE3, CHR 0xE4, CHR 0xE5, CHR 0xE6, CHR 0xE7,
          CHR 0xE8, CHR 0xE9, CHR 0xEA, CHR 0xEB, CHR 0xEC, CHR 0xED, CHR 0xEE, CHR 0xEF,
          CHR 0xF0, CHR 0xF1, CHR 0xF2, CHR 0xF3, CHR 0xF4, CHR 0xF5, CHR 0xF6,
          CHR 0xF8, CHR 0xF9, CHR 0xFA, CHR 0xFB, CHR 0xFC, CHR 0xFD, CHR 0xFE]
         [CHR 0xC0, CHR 0xC1, CHR 0xC2, CHR 0xC3, CHR 0xC4, CHR 0xC5, CHR 0xC6, CHR 0xC7,
          CHR 0xC8, CHR 0xC9, CHR 0xCA, CHR 0xCB, CHR 0xCC, CHR 0xCD, CHR 0xCE, CHR 0xCF,
          CHR 0xD0, CHR 0xD1, CHR 0xD2, CHR 0xD3, CHR 0xD4, CHR 0xD5, CHR 0xD6,
          CHR 0xD8, CHR 0xD9, CHR 0xDA, CHR 0xDB, CHR 0xDC, CHR 0xDD, CHR 0xDE]"

definition upper_table :: "(char \<times> char) list" where
  "upper_table = case_table @ latin_table"

definition upperOf :: "char \<Rightarrow> code_unit list" where
  "upperOf c =
     (if c = CHR 0xDF then [0x53, 0x53]
      else if c = CHR 0xB5 then [0x39C]
      else if c = CHR 0xFF then [0x178]
      else [of_char (case map_of upper_table c of Some u \<Rightarrow> u | None \<Rightarrow> c)])"

definition toUpperCase :: "string \<Rightarrow> code_unit list" where
  "toUpperCase s = concat (map upperOf s)"

text \<open>White space among all code units, for \<open>trim\<close> on an upper-cased text.\<close>

definition is_space_unit :: "code_unit \<Rightarrow> bool" where
  "is_space_unit n =
     (n \<in> set [0x09, 0x0A, 0x0B, 0x0C, 0x0D, 0x20, 0xA0, 0x1680, 0x2028, 0x2029, 0x202F,
               0x205F, 0x3000, 0xFEFF]
      \<or> (0x2000 \<le> n \<and> n \<le> 0x200A))"

definition trimUnits :: "code_unit list \<Rightarrow> code_unit list" where
  "trimUnits s = rev (dropWhile is_space_unit (rev (dropWhile is_space_unit s)))"

definition is_space :: "char \<Rightarrow> bool" where
  "is_space c =
     (c \<in> set [CHR 0x09, CHR 0x0A, CHR 0x0B, CHR 0x0C, CHR 0x0D, CHR '' '', CHR 0xA0])"

definition is_digit :: "char \<Rightarrow> bool" where
  "is_digit c = (c \<in> set ''0123456789'')"

definition trimStart :: "string \<Rightarrow> string" where
  "trimStart s = dropWhile is_space s"

definition trim :: "string \<Rightarrow> string" where
  "trim s = rev (dropWhile is_space (rev (dropWhile is_space s)))"

fun startsWith :: "'a list \<Rightarrow> 'a list \<Rightarrow> bool" where
  "startsWith s [] = True"
| "startsWith [] (d # t) = False"
| "startsWith (c # s) (d # t) = (c = d \<and> startsWith s t)"

fun includes_str :: "'a list \<Rightarrow> 'a list \<Rightarrow> bool" where
  "includes_str [] t = (t = [])"
| "includes_str (c # s) t = (startsWith (c # s) t \<or> includes_str s t)"

section \<open>Regular expressions\<close>

text \<open>
  The patterns of the program, as syntax trees, and the backtracking matcher of the
  language on them. A class item is a character, a range, \<open>\d\<close> or \<open>\s\<close>; a quantifier
  \<open>Rep min max greedy\<close> has \<open>None\<close> for no upper bound; \<open>Grp n\<close> is the \<open>n\<close>-th capturing
  group, and a non-capturing group is just its body.
\<close>

datatype citem = One char | Range char char | Digit | Space

datatype rx =
    Chr char
  | Cls "citem list"
  | Seq rx rx
  | Alt rx rx
  | Rep nat "nat option" bool rx
  | Grp nat rx
  | Eol
  | Eps

type_synonym captures = "nat \<Rightarrow> string option"

text \<open>A matcher state: the input not yet consumed, and the groups captured so far.\<close>

type_synonym mstate = "string \<times> captures"

fun in_item :: "citem \<Rightarrow> char \<Rightarrow> bool" where
  "in_item (One a) c = (c = a)"
| "in_item (Range lo hi) c =
     ((of_char lo :: nat) \<le> of_char c \<and> (of_char c :: nat) \<le> of_char hi)"
| "in_item Digit c = is_digit c"
| "in_item Space c = is_space c"

text \<open>
  With the flag \<open>i\<close> two characters match when their canonical (upper-case) forms are
  equal; a class item then matches a character when it holds a case variant of it. The
  patterns of the program are ASCII, and the language never lets a character outside
  ASCII match an ASCII one under this flag.
\<close>

definition canonicalize :: "bool \<Rightarrow> char \<Rightarrow> char" where
  "canonicalize ic c = (if ic then toUpper c else c)"

definition item_matches :: "bool \<Rightarrow> citem \<Rightarrow> char \<Rightarrow> bool" where
  "item_matches ic it c =
     (in_item it c \<or> (ic \<and> (in_item it (toUpper c) \<or> in_item it (toLower c))))"

text \<open>
  A matcher returns every way to match from a state, in the order in which backtracking
  tries them: the head is the match the engine takes. \<open>rep_m f greedy mn ex\<close> repeats the
  matcher \<open>f\<close> at least \<open>mn\<close> times and at most \<open>ex\<close> times more. An iteration beyond the
  minimum that consumes nothing is rejected, as the language has it, so an unbounded
  quantifier never runs more extra iterations than there are characters left. The
  language clears the groups inside a quantifier at each iteration; no pattern of the
  program has a capturing group inside a quantifier.
\<close>

fun rep_m :: "(mstate \<Rightarrow> mstate list) \<Rightarrow> bool \<Rightarrow> nat \<Rightarrow> nat \<Rightarrow> mstate \<Rightarrow> mstate list" where
  "rep_m f greedy (Suc mn) ex s = concat (map (rep_m f greedy mn ex) (f s))"
| "rep_m f greedy 0 0 s = [s]"
| "rep_m f greedy 0 (Suc ex) s =
     (let more = concat (map (rep_m f greedy 0 ex)
                   (filter (\<lambda>s'. length (fst s') < length (fst s)) (f s)))
      in if greedy then more @ [s] else s # more)"

primrec rx_m :: "bool \<Rightarrow> rx \<Rightarrow> mstate \<Rightarrow> mstate list" where
  "rx_m ic (Chr a) s =
     (case fst s of
        c # cs \<Rightarrow> if canonicalize ic c = canonicalize ic a then [(cs, snd s)] else []
      | [] \<Rightarrow> [])"
| "rx_m ic (Cls its) s =
     (case fst s of
        c # cs \<Rightarrow> if (\<exists>it\<in>set its. item_matches ic it c) then [(cs, snd s)] else []
      | [] \<Rightarrow> [])"
| "rx_m ic (Seq a b) s = concat (map (rx_m ic b) (rx_m ic a s))"
| "rx_m ic (Alt a b) s = rx_m ic a s @ rx_m ic b s"
| "rx_m ic (Rep mn mx greedy r) s =
     rep_m (rx_m ic r) greedy mn
       (case mx of Some k \<Rightarrow> k - mn | None \<Rightarrow> length (fst s)) s"
| "rx_m ic (Grp n r) s =
     map (\<lambda>s'. (fst s', (snd s')(n \<mapsto> take (length (fst s) - length (fst s')) (fst s))))
       (rx_m ic r s)"
| "rx_m ic Eol s = (if fst s = [] then [s] else [])"
| "rx_m ic Eps s = [s]"

text \<open>
  A matcher that never hands back more input than it was given. Every matcher of a
  pattern is one, which is why the bound of an unbounded quantifier is immaterial
  (lemma \<open>unbounded_quantifier\<close> below).
\<close>

definition shrinking :: "(mstate \<Rightarrow> mstate list) \<Rightarrow> bool" where
  "shrinking f = (\<forall>s s'. s' \<in> set (f s) \<longrightarrow> length (fst s') \<le> length (fst s))"

text \<open>
  The result of \<open>String.prototype.match\<close> without the flag \<open>g\<close>: the matched text
  (\<open>match[0]\<close>) and the groups (\<open>match[n]\<close>, \<open>None\<close> for \<open>undefined\<close>) of the first match at
  the leftmost position that has one, \<open>None\<close> for \<open>null\<close>.
\<close>

record rx_match =
  whole :: string
  group :: captures

definition rx_at :: "bool \<Rightarrow> rx \<Rightarrow> string \<Rightarrow> rx_match option" where
  "rx_at ic r s =
     (case rx_m ic r (s, Map.empty) of
        [] \<Rightarrow> None
      | s' # _ \<Rightarrow> Some \<lparr>whole = take (length s - length (fst s')) s, group = snd s'\<rparr>)"

fun js_match :: "bool \<Rightarrow> rx \<Rightarrow> string \<Rightarrow> rx_match option" where
  "js_match ic r [] = rx_at ic r []"
| "js_match ic r (c # cs) =
     (case rx_at ic r (c # cs) of Some mt \<Rightarrow> Some mt | None \<Rightarrow> js_match ic r cs)"

definition lit :: "string \<Rightarrow> rx" where
  "lit s = foldr (\<lambda>c r. Seq (Chr c) r) s Eps"

definition seqs :: "rx list \<Rightarrow> rx" where
  "seqs rs = foldr Seq rs Eps"

definition star :: "rx \<Rightarrow> rx" where
  "star r = Rep 0 None True r"

definition plus :: "rx \<Rightarrow> rx" where
  "plus r = Rep 1 None True r"

definition opt :: "rx \<Rightarrow> rx" where
  "opt r = Rep 0 (Some 1) True r"

definition digit :: rx where
  "digit = Cls [Digit]"

definition ws0 :: rx where
  "ws0 = star (Cls [Space])"

definition ws1 :: rx where
  "ws1 = plus (Cls [Space])"

section \<open>M-Pesa verifier\<close>

record Details =
  containsRequiredText :: bool
  merchantName :: "string option"
  amount :: "string option"
  transactionId :: "string option"
  timestamp :: "string option"

record MpesaVerificationResult =
  isValid :: bool
  message :: string
  details :: Details

definition REQUIRED_MERCHANT_TEXT :: string where
  "REQUIRED_MERCHANT_TEXT = ''VEDACOM 4 SOLUTIONS''"

text \<open>\<^verbatim>\<open>/KSH\s*([\d,]+\.?\d*)/i\<close>\<close>

definition amountRe :: rx where
  "amountRe =
     seqs [lit ''KSH'', ws0,
           Grp 1 (seqs [plus (Cls [Digit, One CHR '','']), opt (Chr CHR ''.''), star digit])]"

text \<open>\<^verbatim>\<open>/(?:TXN\s*ID|TRANSACTION\s*ID)[:\s]*([A-Z0-9]+)/i\<close>\<close>

definition txnRe :: rx where
  "txnRe =
     seqs [Alt (seqs [lit ''TXN'', ws0, lit ''ID'']) (seqs [lit ''TRANSACTION'', ws0, lit ''ID'']),
           star (Cls [One CHR '':'', Space]),
           Grp 1 (plus (Cls [Range CHR ''A'' CHR ''Z'', Range CHR ''0'' CHR ''9'']))]"

text \<open>\<^verbatim>\<open>/(\d{1,2}\/\d{1,2}\/\d{2,4}\s+\d{1,2}:\d{2}\s*(?:AM|PM)?)/i\<close>\<close>

definition timeRe :: rx where
  "timeRe =
     Grp 1 (seqs [Rep 1 (Some 2) True digit, Chr CHR ''/'', Rep 1 (Some 2) True digit,
                  Chr CHR ''/'', Rep 2 (Some 4) True digit, ws1,
                  Rep 1 (Some 2) True digit, Chr CHR '':'', Rep 2 (Some 2) True digit, ws0,
                  opt (Alt (lit ''AM'') (lit ''PM''))])"

text \<open>\<^verbatim>\<open>/(?:TO|PAID\s*TO)[:\s]*([A-Z\s]+?)(?:\s*ON|\s*\d|$)/i\<close>\<close>

definition merchantRe :: rx where
  "merchantRe =
     seqs [Alt (lit ''TO'') (seqs [lit ''PAID'', ws0, lit ''TO'']),
           star (Cls [One CHR '':'', Space]),
           Grp 1 (Rep 1 None False (Cls [Range CHR ''A'' CHR ''Z'', Space])),
           Alt (Seq ws0 (lit ''ON'')) (Alt (Seq ws0 digit) Eol)]"

text \<open>
  Each field is set when its pattern matches, from the pattern's group 1 (a group that
  every match of the pattern defines), and is left out otherwise.
\<close>

definition extractMessageDetails :: "string \<Rightarrow> Details" where
  "extractMessageDetails msg =
     \<lparr>containsRequiredText = True,
      merchantName =
        (case js_match True merchantRe msg of
           Some merchantMatch \<Rightarrow> map_option trim (group merchantMatch 1)
         | None \<Rightarrow> None),
      amount =
        (case js_match True amountRe msg of
           Some amountMatch \<Rightarrow> group amountMatch 1
         | None \<Rightarrow> None),
      transactionId =
        (case js_match True txnRe msg of
           Some txnMatch \<Rightarrow> group txnMatch 1
         | None \<Rightarrow> None),
      timestamp =
        (case js_match True timeRe msg of
           Some timeMatch \<Rightarrow> group timeMatch 1
         | None \<Rightarrow> None)\<rparr>"

text \<open>
  The argument has the type \<open>string\<close>, so of the first guard only the empty string is
  left. In the last branch the fields of \<open>details\<close> are spread over
  \<open>containsRequiredText: true\<close>; \<open>details\<close> carries that field itself, with the same value.
\<close>

definition verifyMessage :: "string \<Rightarrow> MpesaVerificationResult" where
  "verifyMessage msg =
     (if msg = [] then
        \<lparr>isValid = False, message = ''Invalid message format'',
         details = \<lparr>containsRequiredText = False, merchantName = None, amount = None,
                    transactionId = None, timestamp = None\<rparr>\<rparr>
      else
        let normalizedMessage = trimUnits (toUpperCase msg);
            requiredText = toUpperCase REQUIRED_MERCHANT_TEXT;
            containsRequired = includes_str normalizedMessage requiredText
        in if \<not> containsRequired then
             \<lparr>isValid = False,
              message = ''Invalid payment message - merchant verification failed'',
              details = \<lparr>containsRequiredText = False, merchantName = None, amount = None,
                         transactionId = None, timestamp = None\<rparr>\<rparr>
           else
             \<lparr>isValid = True, message = ''Payment message verified successfully'',
              details = extractMessageDetails msg\<rparr>)"

section \<open>M-Pesa message processor\<close>

record MpesMessageInfo =
  amount :: jsnum
  transactionId :: string
  phoneNumber :: string
  timestamp :: int
  isValid :: bool

definition amountGroup :: rx where
  "amountGroup =
     Grp 1 (Seq (plus digit) (opt (Seq (Chr CHR ''.'') (Rep 2 (Some 2) True digit))))"

text \<open>\<^verbatim>\<open>/Ksh(\d+(?:\.\d{2})?)\s+sent\s+to\s+Till\s+Number\s+(\d+)/i\<close>\<close>

definition pattern1 :: rx where
  "pattern1 =
     seqs [lit ''Ksh'', amountGroup, ws1, lit ''sent'', ws1, lit ''to'', ws1,
           lit ''Till'', ws1, lit ''Number'', ws1, Grp 2 (plus digit)]"

text \<open>\<^verbatim>\<open>/Ksh(\d+(?:\.\d{2})?)\s+paid\s+to\s+(\d+)/i\<close>\<close>

definition pattern2 :: rx where
  "pattern2 =
     seqs [lit ''Ksh'', amountGroup, ws1, lit ''paid'', ws1, lit ''to'', ws1,
           Grp 2 (plus digit)]"

text \<open>\<^verbatim>\<open>/Confirmed\.\s*Ksh(\d+(?:\.\d{2})?)\s+sent\s+to\s+(\d+)/i\<close>\<close>

definition pattern3 :: rx where
  "pattern3 =
     seqs [lit ''Confirmed'', Chr CHR ''.'', ws0, lit ''Ksh'', amountGroup, ws1,
           lit ''sent'', ws1, lit ''to'', ws1, Grp 2 (plus digit)]"

text \<open>\<^verbatim>\<open>/Ksh(\d+(?:\.\d{2})?)\s+has\s+been\s+sent\s+to\s+(\d+)/i\<close>\<close>

definition pattern4 :: rx where
  "pattern4 =
     seqs [lit ''Ksh'', amountGroup, ws1, lit ''has'', ws1, lit ''been'', ws1,
           lit ''sent'', ws1, lit ''to'', ws1, Grp 2 (plus digit)]"

definition patterns :: "rx list" where
  "patterns = [pattern1, pattern2, pattern3, pattern4]"

definition correctTillNumber :: string where
  "correctTillNumber = ''3566188''"

text \<open>\<^verbatim>\<open>/(?:\+254|0)?7\d{8}/\<close>\<close>

definition phonePattern :: rx where
  "phonePattern =
     seqs [opt (Alt (lit ''+254'') (Chr CHR ''0'')), Chr CHR ''7'', Rep 8 (Some 8) True digit]"

definition extractPhoneNumber :: "string \<Rightarrow> string" where
  "extractPhoneNumber msg =
     (case js_match False phonePattern msg of Some m \<Rightarrow> whole m | None \<Rightarrow> ''Unknown'')"

text \<open>
  What the processor takes from outside the message: the identifier that
  \<open>generateTransactionId\<close> makes from the clock and the random generator, and the date
  of \<open>new Date()\<close>.
\<close>

record Ambient =
  generatedId :: string
  currentDate :: int

text \<open>
  \<open>parseFloat(match[1])\<close> converts its argument to a string first; an undefined group
  would be read as the text \<open>undefined\<close>.
\<close>

definition paymentOf :: "(string \<Rightarrow> jsnum) \<Rightarrow> Ambient \<Rightarrow> string \<Rightarrow> rx_match \<Rightarrow> MpesMessageInfo" where
  "paymentOf pf amb msg mt =
     \<lparr>amount = js_round (pf (case group mt 1 of Some a \<Rightarrow> a | None \<Rightarrow> ''undefined'')),
      transactionId = generatedId amb,
      phoneNumber = extractPhoneNumber msg,
      timestamp = currentDate amb,
      isValid = True\<rparr>"

text \<open>The loop over the patterns: a pattern returns only on the correct till number.\<close>

fun tryPatterns ::
  "(string \<Rightarrow> jsnum) \<Rightarrow> Ambient \<Rightarrow> string \<Rightarrow> rx list \<Rightarrow> MpesMessageInfo option" where
  "tryPatterns pf amb msg [] = None"
| "tryPatterns pf amb msg (pattern # rest) =
     (case js_match True pattern msg of
        Some mt \<Rightarrow>
          if group mt 2 = Some correctTillNumber then Some (paymentOf pf amb msg mt)
          else tryPatterns pf amb msg rest
      | None \<Rightarrow> tryPatterns pf amb msg rest)"

definition extractPaymentInfo ::
  "(string \<Rightarrow> jsnum) \<Rightarrow> Ambient \<Rightarrow> string \<Rightarrow> MpesMessageInfo option" where
  "extractPaymentInfo pf amb msg =
     (if msg = [] then None else tryPatterns pf amb msg patterns)"

section \<open>A decimal reading of \<open>parseFloat\<close>\<close>

text \<open>
  The value that the built-in reads from a text: leading white space is skipped, then the
  longest prefix that is a decimal literal (a sign, then \<open>Infinity\<close> or digits with an
  optional fraction and an optional exponent) gives the number, and NaN when there is no
  such prefix. The built-in rounds the value to the nearest double, with an infinity on
  overflow; this reading keeps the exact value. The texts used with this function in the
  examples below (0, 250, 500 and 1000) denote doubles exactly.
\<close>

definition digitsValue :: "string \<Rightarrow> nat" where
  "digitsValue ds = foldl (\<lambda>a c. 10 * a + (of_char c - 48)) 0 ds"

definition exponentOf :: "string \<Rightarrow> int" where
  "exponentOf s =
     (case s of
        [] \<Rightarrow> 0
      | e # r \<Rightarrow>
          if e = CHR ''e'' \<or> e = CHR ''E'' then
            (case r of
               [] \<Rightarrow> 0
             | g # t \<Rightarrow>
                 if g = CHR ''-'' then
                   (if takeWhile is_digit t = [] then 0 else - int (digitsValue (takeWhile is_digit t)))
                 else if g = CHR ''+'' then int (digitsValue (takeWhile is_digit t))
                 else int (digitsValue (takeWhile is_digit r)))
          else 0)"

definition unsignedValue :: "string \<Rightarrow> real option" where
  "unsignedValue u =
     (let ip = takeWhile is_digit u;
          r1 = dropWhile is_digit u;
          fp = (case r1 of [] \<Rightarrow> [] | d # r \<Rightarrow> if d = CHR ''.'' then takeWhile is_digit r else []);
          r2 = (case r1 of [] \<Rightarrow> [] | d # r \<Rightarrow> if d = CHR ''.'' then dropWhile is_digit r else r1)
      in if ip = [] \<and> fp = [] then None
         else
           let m = real (digitsValue ip) + real (digitsValue fp) / 10 ^ length fp;
               e = exponentOf r2
           in Some (if 0 \<le> e then m * 10 ^ nat e else m / 10 ^ nat (- e)))"

definition parseFloat :: "string \<Rightarrow> jsnum" where
  "parseFloat s =
     (let t = trimStart s;
          neg = (case t of [] \<Rightarrow> False | c # r \<Rightarrow> c = CHR ''-'');
          u = (case t of [] \<Rightarrow> [] | c # r \<Rightarrow> if c = CHR ''-'' \<or> c = CHR ''+'' then r else t)
      in if startsWith u ''Infinity'' then (if neg then NInf else PInf)
         else case unsignedValue u of
                None \<Rightarrow> NaN
              | Some v \<Rightarrow> Fin (if neg then - v else v))"

section \<open>Notions of the specification\<close>

text \<open>A paid tier: one whose numeric price is greater than 0.\<close>

definition is_paid :: "(string \<Rightarrow> jsnum) \<Rightarrow> SurveyPlan \<Rightarrow> bool" where
  "is_paid pf t = js_gt (planPrice pf t) (Fin 0)"

text \<open>
  Containing a text case-insensitively: some stretch of the message has the text's
  length and is, character by character, the same letter up to case.
\<close>

definition same_letter :: "char \<Rightarrow> char \<Rightarrow> bool" where
  "same_letter c d = (c = d \<or> (c, d) \<in> set case_table \<or> (d, c) \<in> set case_table)"

fun starts_ci :: "string \<Rightarrow> string \<Rightarrow> bool" where
  "starts_ci s [] = True"
| "starts_ci [] (d # t) = False"
| "starts_ci (c # s) (d # t) = (same_letter c d \<and> starts_ci s t)"

fun contains_ci :: "string \<Rightarrow> string \<Rightarrow> bool" where
  "contains_ci [] t = (t = [])"
| "contains_ci (c # s) t = (starts_ci (c # s) t \<or> contains_ci s t)"

text \<open>
  A character that upper-casing keeps as it is and that is the capital of no accented
  letter: every character of the marker is one.
\<close>

definition plain :: "char \<Rightarrow> bool" where
  "plain d =
     (d \<notin> fst ` set upper_table \<and> d \<notin> snd ` set latin_table
      \<and> d \<notin> set [CHR 0xDF, CHR 0xB5, CHR 0xFF])"

text \<open>A message with each sharp s written out as the two letters SS.\<close>

definition expandSharpS :: "string \<Rightarrow> string" where
  "expandSharpS s = concat (map (\<lambda>c. if c = CHR 0xDF then ''SS'' else [c]) s)"

section \<open>Scenarios of the specification\<close>

text \<open>
  The tiers of the specification's scenarios, priced 0, 250, 500 and 1000, under the
  plan names the program uses.
\<close>

definition plan :: "string \<Rightarrow> string \<Rightarrow> SurveyPlan" where
  "plan name cost =
     \<lparr>planName = name, dailySurvey = Fin 0, monthlyIncome = Fin 0, dailyIncome = Fin 0,
      earningPerSurvey = ''0'', minimumWithdrawal = Fin 0, price = cost,
      description = None, features = None\<rparr>"

definition scenarioTiers :: "SurveyPlan list" where
  "scenarioTiers =
     [plan ''Starter'' ''0'', plan ''Silver'' ''250'', plan ''Gold'' ''500'',
      plan ''Platinum'' ''1000'']"

definition scenarioMessage :: string where
  "scenarioMessage =
     ''Confirmed. Ksh250.00 sent to Till Number 3566188 on 1/1/24 ... VEDACOM 4 SOLUTIONS''"

definition scenarioAmbient :: Ambient where
  "scenarioAmbient = \<lparr>generatedId = ''MP1700000000000A1B2C'', currentDate = 1700000000000\<rparr>"

text \<open>
  The pasted texts of the auto-detect scenario: template 2 with the expected till number
  and with another one; and a text on which template 1 matches with a foreign till
  number before template 2 matches with the expected one.
\<close>

definition paidToMessage :: string where
  "paidToMessage = ''Ksh500 paid to 3566188''"

definition otherTillMessage :: string where
  "otherTillMessage = ''Ksh500 paid to 1234567''"

definition twoTemplatesMessage :: string where
  "twoTemplatesMessage = ''Ksh100 sent to Till Number 111. Ksh500 paid to 3566188''"


text \<open>The scenario message without the marker text.\<close>

definition unmarkedMessage :: string where
  "unmarkedMessage = ''Confirmed. Ksh250.00 sent to Till Number 3566188 on 1/1/24 ...''"

text \<open>
  Group \<open>n\<close> of a match result: \<open>None\<close> when the pattern did not match, \<open>Some None\<close>
  when it matched and left the group undefined.
\<close>

definition groupOf :: "nat \<Rightarrow> rx_match option \<Rightarrow> string option option" where
  "groupOf n res = (case res of None \<Rightarrow> None | Some mt \<Rightarrow> Some (group mt n))"

section \<open>Ordering and sorting lemmas\<close>


lemma cmp_sign: "js_gt (js_sub a b) (Fin 0) = js_lt b a"
  by (cases a; cases b) (simp_all add: js_gt_def)

lemma js_le_refl: "a \<noteq> NaN \<Longrightarrow> js_le a a"
  by (simp add: js_le_def js_eq_def)

lemma js_le_trans: "js_le a b \<Longrightarrow> js_le b c \<Longrightarrow> js_le a c"
  by (cases a; cases b; cases c) (auto simp: js_le_def js_eq_def)

lemma js_lt_le_trans: "js_lt a b \<Longrightarrow> js_le b c \<Longrightarrow> js_lt a c"
  by (cases a; cases b; cases c) (auto simp: js_le_def js_eq_def)

lemma js_lt_imp_le: "js_lt a b \<Longrightarrow> js_le a b"
  by (simp add: js_le_def)

lemma js_not_lt: "a \<noteq> NaN \<Longrightarrow> b \<noteq> NaN \<Longrightarrow> \<not> js_lt b a \<Longrightarrow> js_le a b"
  by (cases a; cases b) (auto simp: js_le_def js_eq_def)

lemma js_le_antisym: "js_le a b \<Longrightarrow> js_le b a \<Longrightarrow> a = b"
  by (cases a; cases b) (auto simp: js_le_def js_eq_def)

lemma js_lt_not_le: "js_lt a b \<Longrightarrow> \<not> js_le b a"
  by (cases a; cases b) (auto simp: js_le_def js_eq_def)

lemma js_gt_zero_not_NaN: "js_gt a (Fin 0) \<Longrightarrow> a \<noteq> NaN"
  by (cases a) (auto simp: js_gt_def)

lemma js_le_not_NaN: "js_le a b \<Longrightarrow> a \<noteq> NaN \<and> b \<noteq> NaN"
  by (cases a; cases b) (auto simp: js_le_def js_eq_def)

lemma set_js_insert: "set (js_insert cmp x ys) = insert x (set ys)"
  by (induction ys) auto

lemma set_js_sort: "set (js_sort cmp xs) = set xs"
  by (induction xs) (simp_all add: js_sort_def set_js_insert)

lemma mset_js_insert: "mset (js_insert cmp x ys) = add_mset x (mset ys)"
  by (induction ys) auto

lemma mset_js_sort: "mset (js_sort cmp xs) = mset xs"
  by (induction xs) (simp_all add: js_sort_def mset_js_insert)


lemma sorted_js_insert:
  assumes "sorted_wrt (\<lambda>a b. js_le (k a) (k b)) ys" "k x \<noteq> NaN" "\<forall>y\<in>set ys. k y \<noteq> NaN"
  shows "sorted_wrt (\<lambda>a b. js_le (k a) (k b)) (js_insert (\<lambda>a b. js_sub (k a) (k b)) x ys)"
  using assms
proof (induction ys)
  case Nil
  then show ?case by simp
next
  case (Cons y ys)
  show ?case
  proof (cases "js_lt (k y) (k x)")
    case True
    then have "js_le (k y) (k x)" by (rule js_lt_imp_le)
    with Cons True show ?thesis
      by (auto simp: cmp_sign set_js_insert)
  next
    case False
    with Cons.prems have xy: "js_le (k x) (k y)" by (simp add: js_not_lt)
    have "\<forall>z\<in>set ys. js_le (k x) (k z)"
      using Cons.prems(1) xy by (auto intro: js_le_trans)
    with Cons.prems False xy show ?thesis
      by (simp add: cmp_sign)
  qed
qed

lemma sorted_js_sort:
  assumes "\<forall>y\<in>set xs. k y \<noteq> NaN"
  shows "sorted_wrt (\<lambda>a b. js_le (k a) (k b)) (js_sort (\<lambda>a b. js_sub (k a) (k b)) xs)"
  using assms
proof (induction xs)
  case Nil
  then show ?case by (simp add: js_sort_def)
next
  case (Cons x xs)
  then have "sorted_wrt (\<lambda>a b. js_le (k a) (k b)) (js_sort (\<lambda>a b. js_sub (k a) (k b)) xs)"
    by simp
  from sorted_js_insert[OF this, of x] Cons.prems show ?case
    by (simp add: js_sort_def set_js_sort[unfolded js_sort_def])
qed

lemma filter_js_insert:
  assumes "sorted_wrt (\<lambda>a b. js_le (k a) (k b)) ys" 
  shows "filter (\<lambda>y. k y = v) (js_insert (\<lambda>a b. js_sub (k a) (k b)) x ys)
       = filter (\<lambda>y. k y = v) (x # ys)"
  using assms
proof (induction ys)
  case Nil
  then show ?case by simp
next
  case (Cons y ys)
  show ?case
  proof (cases "js_lt (k y) (k x)")
    case True
    then have ne: "k y \<noteq> k x" by (cases "k y"; cases "k x") auto
    with Cons True show ?thesis by (auto simp: cmp_sign)
  next
    case False
    then show ?thesis by (simp add: cmp_sign)
  qed
qed

lemma filter_js_sort:
  assumes "\<forall>y\<in>set xs. k y \<noteq> NaN"
  shows "filter (\<lambda>y. k y = v) (js_sort (\<lambda>a b. js_sub (k a) (k b)) xs) = filter (\<lambda>y. k y = v) xs"
  using assms
proof (induction xs)
  case Nil
  then show ?case by (simp add: js_sort_def)
next
  case (Cons x xs)
  then have s: "sorted_wrt (\<lambda>a b. js_le (k a) (k b)) (js_sort (\<lambda>a b. js_sub (k a) (k b)) xs)"
    by (simp add: sorted_js_sort)
  from filter_js_insert[OF s, of v x] Cons show ?case
    by (simp add: js_sort_def)
qed


lemma paid_set: "set (paidPlans pf ts) = {t \<in> set ts. is_paid pf t}"
  by (auto simp: paidPlans_def set_js_sort is_paid_def planPrice_def)

lemma paid_mset: "mset (paidPlans pf ts) = filter_mset (is_paid pf) (mset ts)"
proof -
  have "is_paid pf = (\<lambda>plan. js_gt (pf (price plan)) (Fin 0))"
    by (simp add: fun_eq_iff is_paid_def planPrice_def)
  then show ?thesis by (simp add: paidPlans_def mset_js_sort)
qed

lemma paid_sorted:
  "sorted_wrt (\<lambda>a b. js_le (planPrice pf a) (planPrice pf b)) (paidPlans pf ts)"
  unfolding paidPlans_def planPrice_def
  by (rule sorted_js_sort[where k = "\<lambda>p. pf (price p)"]) (auto dest: js_gt_zero_not_NaN)

lemma paid_stable:
  "filter (\<lambda>t. planPrice pf t = v) (paidPlans pf ts)
     = filter (\<lambda>t. is_paid pf t \<and> planPrice pf t = v) ts"
proof -
  have "filter (\<lambda>t. pf (price t) = v) (paidPlans pf ts)
      = filter (\<lambda>t. pf (price t) = v) (filter (\<lambda>plan. js_gt (pf (price plan)) (Fin 0)) ts)"
    unfolding paidPlans_def
    by (rule filter_js_sort[where k = "\<lambda>p. pf (price p)"]) (auto dest: js_gt_zero_not_NaN)
  then show ?thesis
    by (simp add: planPrice_def is_paid_def conj_commute)
qed

lemma find_filter: "find Q xs = (case filter Q xs of [] \<Rightarrow> None | x # _ \<Rightarrow> Some x)"
  by (induction xs) auto

lemma find_sorted_least:
  assumes "sorted_wrt R xs" "find Q xs = Some r" "t \<in> set xs" "Q t"
  shows "t = r \<or> R r t"
proof -
  from assms(2) obtain i where i: "i < length xs" "r = xs ! i" "\<forall>j<i. \<not> Q (xs ! j)"
    by (auto simp: find_Some_iff)
  from assms(3) obtain j where j: "j < length xs" "t = xs ! j"
    by (auto simp: in_set_conv_nth)
  with i assms(4) have "\<not> j < i" by auto
  then consider "j = i" | "i < j" by linarith
  then show ?thesis
  proof cases
    case 1
    with i j show ?thesis by simp
  next
    case 2
    with assms(1) i j show ?thesis by (simp add: sorted_wrt_nth_less)
  qed
qed

lemma sorted_last_greatest:
  assumes "sorted_wrt R xs" "t \<in> set xs"
  shows "t = last xs \<or> R t (last xs)"
proof -
  from assms(2) obtain j where j: "j < length xs" "t = xs ! j"
    by (auto simp: in_set_conv_nth)
  then have ne: "xs \<noteq> []" by auto
  show ?thesis
  proof (cases "j = length xs - 1")
    case True
    with j ne show ?thesis by (simp add: last_conv_nth)
  next
    case False
    with j have "j < length xs - 1" by simp
    with assms(1) j ne show ?thesis
      by (simp add: last_conv_nth sorted_wrt_nth_less)
  qed
qed

lemma paid_least:
  assumes "find Q (paidPlans pf ts) = Some r" "is_paid pf t" "t \<in> set ts" "Q t"
  shows "js_le (planPrice pf r) (planPrice pf t)"
proof -
  from assms have "t \<in> set (paidPlans pf ts)" by (simp add: paid_set)
  from find_sorted_least[OF paid_sorted assms(1) this assms(4)]
  show ?thesis using assms(2)
    by (auto simp: is_paid_def dest: js_gt_zero_not_NaN intro: js_le_refl)
qed

lemma paid_greatest:
  assumes "is_paid pf t" "t \<in> set ts"
  shows "js_le (planPrice pf t) (planPrice pf (last (paidPlans pf ts)))"
proof -
  from assms have "t \<in> set (paidPlans pf ts)" by (simp add: paid_set)
  from sorted_last_greatest[OF paid_sorted this]
  show ?thesis using assms(1)
    by (auto simp: is_paid_def dest: js_gt_zero_not_NaN intro: js_le_refl)
qed

lemma paid_nonempty: "(paidPlans pf ts \<noteq> []) = (\<exists>t\<in>set ts. is_paid pf t)"
proof -
  have "(paidPlans pf ts \<noteq> []) = (set (paidPlans pf ts) \<noteq> {})" by simp
  then show ?thesis by (auto simp: paid_set)
qed

lemma last_paid: "paidPlans pf ts \<noteq> [] \<Longrightarrow>
   last (paidPlans pf ts) \<in> set ts \<and> is_paid pf (last (paidPlans pf ts))"
  using last_in_set[of "paidPlans pf ts"] by (simp add: paid_set)

lemma find_paid: "find Q (paidPlans pf ts) = Some r \<Longrightarrow> r \<in> set ts \<and> is_paid pf r \<and> Q r"
proof -
  assume "find Q (paidPlans pf ts) = Some r"
  then have "r \<in> set (paidPlans pf ts) \<and> Q r"
    by (auto simp: find_Some_iff)
  then show ?thesis by (simp add: paid_set)
qed

lemma getPlan_unfold:
  "getPlanByAmount pf amt ts =
     (case find (\<lambda>p. js_eq (planPrice pf p) amt) (paidPlans pf ts) of
        Some e \<Rightarrow> Some e
      | None \<Rightarrow> (case find (\<lambda>p. js_ge (planPrice pf p) amt) (paidPlans pf ts) of
            Some h \<Rightarrow> Some h
          | None \<Rightarrow> if paidPlans pf ts \<noteq> [] then Some (last (paidPlans pf ts)) else None))"
  unfolding getPlanByAmount_def planPrice_def Let_def by simp

lemma js_eq_imp_ge: "js_eq a b \<Longrightarrow> js_ge a b"
  by (auto simp: js_ge_def js_le_def js_eq_def)

lemma getPlan_exact:
  assumes "t \<in> set ts" "is_paid pf t" "js_eq (planPrice pf t) amt"
  shows "\<exists>r. getPlanByAmount pf amt ts = Some r \<and> r \<in> set ts \<and> is_paid pf r
          \<and> js_eq (planPrice pf r) amt
          \<and> find (\<lambda>t. is_paid pf t \<and> js_eq (planPrice pf t) amt) ts = Some r"
proof -
  let ?Q = "\<lambda>p. js_eq (planPrice pf p) amt"
  from assms have "t \<in> set (paidPlans pf ts)" by (simp add: paid_set)
  with assms(3) have "find ?Q (paidPlans pf ts) \<noteq> None"
    by (auto simp: find_None_iff)
  then obtain r where r: "find ?Q (paidPlans pf ts) = Some r" by auto
  then have g: "getPlanByAmount pf amt ts = Some r" by (simp add: getPlan_unfold)
  from assms(3) have na: "amt \<noteq> NaN" by (simp add: js_eq_def)
  have Q: "?Q = (\<lambda>p. planPrice pf p = amt)"
    using na by (auto simp: fun_eq_iff js_eq_def)
  have "find (\<lambda>t. is_paid pf t \<and> planPrice pf t = amt) ts
        = find (\<lambda>p. planPrice pf p = amt) (paidPlans pf ts)"
    by (simp add: find_filter[of _ ts] find_filter[of _ "paidPlans pf ts"] paid_stable)
  moreover have "(\<lambda>t. is_paid pf t \<and> js_eq (planPrice pf t) amt)
        = (\<lambda>t. is_paid pf t \<and> planPrice pf t = amt)"
    using na by (auto simp: fun_eq_iff js_eq_def)
  ultimately have "find (\<lambda>t. is_paid pf t \<and> js_eq (planPrice pf t) amt) ts = Some r"
    using r Q by simp
  with g find_paid[OF r] show ?thesis by simp
qed

lemma getPlan_higher:
  assumes "\<not> (\<exists>t\<in>set ts. is_paid pf t \<and> js_eq (planPrice pf t) amt)"
    and "t \<in> set ts" "is_paid pf t" "js_ge (planPrice pf t) amt"
  shows "\<exists>r. getPlanByAmount pf amt ts = Some r \<and> r \<in> set ts \<and> is_paid pf r
          \<and> js_ge (planPrice pf r) amt
          \<and> (\<forall>u\<in>set ts. is_paid pf u \<and> js_ge (planPrice pf u) amt
                 \<longrightarrow> js_le (planPrice pf r) (planPrice pf u))"
proof -
  let ?E = "\<lambda>p. js_eq (planPrice pf p) amt"
  let ?Q = "\<lambda>p. js_ge (planPrice pf p) amt"
  from assms(1) have e: "find ?E (paidPlans pf ts) = None"
    by (auto simp: find_None_iff paid_set)
  from assms have "t \<in> set (paidPlans pf ts)" by (simp add: paid_set)
  with assms(4) have "find ?Q (paidPlans pf ts) \<noteq> None"
    by (auto simp: find_None_iff)
  then obtain r where r: "find ?Q (paidPlans pf ts) = Some r" by auto
  with e have g: "getPlanByAmount pf amt ts = Some r" by (simp add: getPlan_unfold)
  have "\<forall>u\<in>set ts. is_paid pf u \<and> ?Q u \<longrightarrow> js_le (planPrice pf r) (planPrice pf u)"
    using paid_least[OF r] by blast
  with g find_paid[OF r] show ?thesis by simp
qed

lemma getPlan_highest:
  assumes "\<not> (\<exists>t\<in>set ts. is_paid pf t \<and> js_ge (planPrice pf t) amt)"
    and "t \<in> set ts" "is_paid pf t"
  shows "getPlanByAmount pf amt ts = Some (last (paidPlans pf ts))
          \<and> last (paidPlans pf ts) \<in> set ts \<and> is_paid pf (last (paidPlans pf ts))
          \<and> (\<forall>u\<in>set ts. is_paid pf u
                 \<longrightarrow> js_le (planPrice pf u) (planPrice pf (last (paidPlans pf ts))))"
proof -
  let ?E = "\<lambda>p. js_eq (planPrice pf p) amt"
  let ?Q = "\<lambda>p. js_ge (planPrice pf p) amt"
  from assms(1) have q: "find ?Q (paidPlans pf ts) = None"
    by (auto simp: find_None_iff paid_set)
  from assms(1) have e: "find ?E (paidPlans pf ts) = None"
    by (auto simp: find_None_iff paid_set dest: js_eq_imp_ge)
  from assms have ne: "paidPlans pf ts \<noteq> []" by (auto simp: paid_nonempty)
  with q e have g: "getPlanByAmount pf amt ts = Some (last (paidPlans pf ts))"
    by (simp add: getPlan_unfold)
  with last_paid[OF ne] paid_greatest show ?thesis by blast
qed

lemma getPlan_None: "(getPlanByAmount pf amt ts = None) = (\<not> (\<exists>t\<in>set ts. is_paid pf t))"
  by (auto simp: getPlan_unfold paid_nonempty[symmetric] find_None_iff
      split: option.splits)

text \<open>
  Claim C2. For every amount and every sequence of tiers, the tiers considered are those
  with a price greater than 0, in ascending order of price (the sorted array is a sorted
  rearrangement of exactly the paid tiers). If a paid tier has the amount as its price,
  the result is such a tier, and it is the first one of the sequence; otherwise, if a paid
  tier has a price greater than or equal to the amount, the result is a paid tier of the
  least such price; otherwise, if there is a paid tier at all, the result is the last,
  highest-priced paid tier; and the result is absent exactly when no tier is paid.
  This holds whatever \<open>parseFloat\<close> returns on the price texts.
\<close>

theorem getPlanByAmount_resolution:
  "(sorted_wrt (\<lambda>a b. js_le (planPrice pf a) (planPrice pf b)) (paidPlans pf tiers)
      \<and> mset (paidPlans pf tiers) = filter_mset (is_paid pf) (mset tiers))
   \<and> ((\<exists>t\<in>set tiers. is_paid pf t \<and> js_eq (planPrice pf t) amt) \<longrightarrow>
        (\<exists>r. getPlanByAmount pf amt tiers = Some r \<and> r \<in> set tiers \<and> is_paid pf r
           \<and> js_eq (planPrice pf r) amt
           \<and> find (\<lambda>t. is_paid pf t \<and> js_eq (planPrice pf t) amt) tiers = Some r))
   \<and> (\<not> (\<exists>t\<in>set tiers. is_paid pf t \<and> js_eq (planPrice pf t) amt)
        \<and> (\<exists>t\<in>set tiers. is_paid pf t \<and> js_ge (planPrice pf t) amt) \<longrightarrow>
        (\<exists>r. getPlanByAmount pf amt tiers = Some r \<and> r \<in> set tiers \<and> is_paid pf r
           \<and> js_ge (planPrice pf r) amt
           \<and> (\<forall>u\<in>set tiers. is_paid pf u \<and> js_ge (planPrice pf u) amt
                 \<longrightarrow> js_le (planPrice pf r) (planPrice pf u))))
   \<and> (\<not> (\<exists>t\<in>set tiers. is_paid pf t \<and> js_ge (planPrice pf t) amt)
        \<and> (\<exists>t\<in>set tiers. is_paid pf t) \<longrightarrow>
        (\<exists>r. getPlanByAmount pf amt tiers = Some r \<and> r \<in> set tiers \<and> is_paid pf r
           \<and> r = last (paidPlans pf tiers)
           \<and> (\<forall>u\<in>set tiers. is_paid pf u \<longrightarrow> js_le (planPrice pf u) (planPrice pf r))))
   \<and> ((getPlanByAmount pf amt tiers = None) = (\<not> (\<exists>t\<in>set tiers. is_paid pf t)))"
proof (intro conjI impI)
  show "sorted_wrt (\<lambda>a b. js_le (planPrice pf a) (planPrice pf b)) (paidPlans pf tiers)"
    by (rule paid_sorted)
  show "mset (paidPlans pf tiers) = filter_mset (is_paid pf) (mset tiers)"
    by (rule paid_mset)
  show "(getPlanByAmount pf amt tiers = None) = (\<not> (\<exists>t\<in>set tiers. is_paid pf t))"
    by (rule getPlan_None)
next
  assume "\<exists>t\<in>set tiers. is_paid pf t \<and> js_eq (planPrice pf t) amt"
  then obtain t where "t \<in> set tiers" "is_paid pf t" "js_eq (planPrice pf t) amt" by blast
  then show "\<exists>r. getPlanByAmount pf amt tiers = Some r \<and> r \<in> set tiers \<and> is_paid pf r
           \<and> js_eq (planPrice pf r) amt
           \<and> find (\<lambda>t. is_paid pf t \<and> js_eq (planPrice pf t) amt) tiers = Some r"
    by (rule getPlan_exact)
next
  assume a: "\<not> (\<exists>t\<in>set tiers. is_paid pf t \<and> js_eq (planPrice pf t) amt)
        \<and> (\<exists>t\<in>set tiers. is_paid pf t \<and> js_ge (planPrice pf t) amt)"
  then obtain t where "t \<in> set tiers" "is_paid pf t" "js_ge (planPrice pf t) amt" by blast
  with a show "\<exists>r. getPlanByAmount pf amt tiers = Some r \<and> r \<in> set tiers \<and> is_paid pf r
           \<and> js_ge (planPrice pf r) amt
           \<and> (\<forall>u\<in>set tiers. is_paid pf u \<and> js_ge (planPrice pf u) amt
                 \<longrightarrow> js_le (planPrice pf r) (planPrice pf u))"
    using getPlan_higher[of tiers pf amt t] by blast
next
  assume a: "\<not> (\<exists>t\<in>set tiers. is_paid pf t \<and> js_ge (planPrice pf t) amt)
        \<and> (\<exists>t\<in>set tiers. is_paid pf t)"
  then obtain t where "t \<in> set tiers" "is_paid pf t" by blast
  with a show "\<exists>r. getPlanByAmount pf amt tiers = Some r \<and> r \<in> set tiers \<and> is_paid pf r
           \<and> r = last (paidPlans pf tiers)
           \<and> (\<forall>u\<in>set tiers. is_paid pf u \<longrightarrow> js_le (planPrice pf u) (planPrice pf r))"
    using getPlan_highest[of tiers pf amt t] by blast
qed

lemma getPlan_cases:
  assumes "getPlanByAmount pf amt ts = Some r"
  shows "r \<in> set ts \<and> is_paid pf r \<and>
         (js_ge (planPrice pf r) amt
          \<or> (r = last (paidPlans pf ts) \<and> \<not> (\<exists>t\<in>set ts. is_paid pf t \<and> js_ge (planPrice pf t) amt)))"
proof -
  let ?E = "\<lambda>p. js_eq (planPrice pf p) amt"
  let ?Q = "\<lambda>p. js_ge (planPrice pf p) amt"
  show ?thesis
  proof (cases "find ?E (paidPlans pf ts)")
    case (Some e)
    with assms have "r = e" by (simp add: getPlan_unfold)
    with find_paid[OF Some] show ?thesis by (auto dest: js_eq_imp_ge)
  next
    case None
    show ?thesis
    proof (cases "find ?Q (paidPlans pf ts)")
      case (Some h)
      with None assms have "r = h" by (simp add: getPlan_unfold)
      with find_paid[OF Some] show ?thesis by auto
    next
      case N2: None
      with None assms have ne: "paidPlans pf ts \<noteq> []" and r: "r = last (paidPlans pf ts)"
        by (auto simp: getPlan_unfold split: if_splits)
      from N2 have "\<not> (\<exists>t\<in>set ts. is_paid pf t \<and> ?Q t)"
        by (auto simp: find_None_iff paid_set)
      with r last_paid[OF ne] show ?thesis by simp
    qed
  qed
qed

lemma getPlan_below:
  assumes "t \<in> set ts" "is_paid pf t" "js_ge (planPrice pf t) amt"
  shows "\<exists>r. getPlanByAmount pf amt ts = Some r \<and> r \<in> set ts \<and> is_paid pf r
          \<and> js_le (planPrice pf r) (planPrice pf t)"
proof (cases "\<exists>u\<in>set ts. is_paid pf u \<and> js_eq (planPrice pf u) amt")
  case True
  then obtain u where "u \<in> set ts" "is_paid pf u" "js_eq (planPrice pf u) amt" by blast
  from getPlan_exact[OF this] obtain r where
    r: "getPlanByAmount pf amt ts = Some r" "r \<in> set ts" "is_paid pf r"
       "js_eq (planPrice pf r) amt" by blast
  from r(4) have "planPrice pf r = amt" by (simp add: js_eq_def)
  with assms(3) r show ?thesis by (auto simp: js_ge_def)
next
  case False
  from getPlan_higher[OF False assms] assms show ?thesis by blast
qed

text \<open>
  Claim C6. \<open>getPlanByAmount\<close> is monotonic: for a fixed sequence of tiers with at least
  one paid tier and amounts \<open>amount1 < amount2\<close>, both amounts resolve to a tier and the
  price of the first is less than or equal to the price of the second. When \<open>amount2\<close>
  exceeds every paid price, it resolves to the top tier (to which \<open>amount1\<close> may resolve
  as well).
\<close>

theorem getPlanByAmount_monotonic:
  assumes "js_lt amount1 amount2" "\<exists>t\<in>set tiers. is_paid pf t"
  shows "\<exists>r1 r2. getPlanByAmount pf amount1 tiers = Some r1
           \<and> getPlanByAmount pf amount2 tiers = Some r2
           \<and> js_le (planPrice pf r1) (planPrice pf r2)
           \<and> ((\<forall>t\<in>set tiers. is_paid pf t \<longrightarrow> js_lt (planPrice pf t) amount2)
                \<longrightarrow> r2 = last (paidPlans pf tiers)
                    \<and> (\<forall>t\<in>set tiers. is_paid pf t \<longrightarrow> js_le (planPrice pf t) (planPrice pf r2)))"
proof -
  from assms(2) have "getPlanByAmount pf amount1 tiers \<noteq> None"
    "getPlanByAmount pf amount2 tiers \<noteq> None"
    by (simp_all add: getPlan_None)
  then obtain r1 r2 where r1: "getPlanByAmount pf amount1 tiers = Some r1"
    and r2: "getPlanByAmount pf amount2 tiers = Some r2" by auto
  note c1 = getPlan_cases[OF r1] and c2 = getPlan_cases[OF r2]
  have le: "js_le (planPrice pf r1) (planPrice pf r2)"
  proof (cases "js_ge (planPrice pf r2) amount2")
    case True
    with assms(1) have "js_ge (planPrice pf r2) amount1"
      unfolding js_ge_def by (blast intro: js_lt_le_trans js_lt_imp_le)
    with c2 getPlan_below[of r2 tiers pf amount1] r1 show ?thesis by auto
  next
    case False
    with c2 have "r2 = last (paidPlans pf tiers)" by simp
    with c1 paid_greatest[of pf r1 tiers] show ?thesis by simp
  qed
  have top: "r2 = last (paidPlans pf tiers)
      \<and> (\<forall>t\<in>set tiers. is_paid pf t \<longrightarrow> js_le (planPrice pf t) (planPrice pf r2))"
    if h: "\<forall>t\<in>set tiers. is_paid pf t \<longrightarrow> js_lt (planPrice pf t) amount2"
  proof -
    from h have "\<not> (\<exists>t\<in>set tiers. is_paid pf t \<and> js_ge (planPrice pf t) amount2)"
      unfolding js_ge_def by (blast dest: js_lt_not_le)
    with assms(2) obtain t where "t \<in> set tiers" "is_paid pf t"
      and n: "\<not> (\<exists>t\<in>set tiers. is_paid pf t \<and> js_ge (planPrice pf t) amount2)" by blast
    from getPlan_highest[OF n this(1,2)] r2 show ?thesis by simp
  qed
  from r1 r2 le top show ?thesis by blast
qed

text \<open>
  Claim C10. Whenever at least one tier has a price greater than 0, \<open>getPlanByAmount\<close>
  returns a tier for every amount (zero, negative, infinite and NaN included), the tier
  is one of the sequence and is never a free tier; and for every amount less than or equal
  to all paid prices, and so for every amount that is not positive, the result is the
  lowest-priced paid tier, the head of the sorted paid tiers.
\<close>

theorem getPlanByAmount_paid_total:
  assumes "\<exists>t\<in>set tiers. is_paid pf t"
  shows "\<exists>r. getPlanByAmount pf amt tiers = Some r \<and> r \<in> set tiers
           \<and> js_gt (planPrice pf r) (Fin 0) \<and> \<not> js_eq (planPrice pf r) (Fin 0)
           \<and> ((\<forall>t\<in>set tiers. is_paid pf t \<longrightarrow> js_le amt (planPrice pf t))
                \<longrightarrow> r = hd (paidPlans pf tiers)
                    \<and> (\<forall>t\<in>set tiers. is_paid pf t \<longrightarrow> js_le (planPrice pf r) (planPrice pf t)))
           \<and> (js_le amt (Fin 0) \<longrightarrow> r = hd (paidPlans pf tiers))"
proof -
  from assms have "getPlanByAmount pf amt tiers \<noteq> None" by (simp add: getPlan_None)
  then obtain r where r: "getPlanByAmount pf amt tiers = Some r" by auto
  note c = getPlan_cases[OF r]
  then have pos: "js_gt (planPrice pf r) (Fin 0)" by (simp add: is_paid_def)
  then have nz: "\<not> js_eq (planPrice pf r) (Fin 0)"
    by (cases "planPrice pf r") (auto simp: js_gt_def js_eq_def)
  have low: "r = hd (paidPlans pf tiers)
      \<and> (\<forall>t\<in>set tiers. is_paid pf t \<longrightarrow> js_le (planPrice pf r) (planPrice pf t))"
    if h: "\<forall>t\<in>set tiers. is_paid pf t \<longrightarrow> js_le amt (planPrice pf t)"
  proof -
    from assms have ne: "paidPlans pf tiers \<noteq> []" by (simp add: paid_nonempty)
    then obtain x xs where xs: "paidPlans pf tiers = x # xs" by (cases "paidPlans pf tiers") auto
    then have "x \<in> set (paidPlans pf tiers)" by simp
    then have x: "x \<in> set tiers" "is_paid pf x" by (simp_all add: paid_set)
    with h have ge: "js_ge (planPrice pf x) amt" by (simp add: js_ge_def)
    from paid_sorted[of pf tiers] xs
    have tl: "\<forall>y\<in>set xs. js_le (planPrice pf x) (planPrice pf y)" by simp
    have "find (\<lambda>p. js_eq (planPrice pf p) amt) xs = None" if "\<not> js_eq (planPrice pf x) amt"
    proof -
      have "\<not> js_eq (planPrice pf y) amt" if y: "y \<in> set xs" for y
      proof
        assume "js_eq (planPrice pf y) amt"
        then have "planPrice pf y = amt" by (simp add: js_eq_def)
        with tl y have "js_le (planPrice pf x) amt" by auto
        with ge have "planPrice pf x = amt" unfolding js_ge_def by (blast intro: js_le_antisym)
        with ge \<open>\<not> js_eq (planPrice pf x) amt\<close> show False
          by (auto simp: js_eq_def js_ge_def dest: js_le_not_NaN)
      qed
      then show ?thesis by (simp add: find_None_iff)
    qed
    with ge xs have "getPlanByAmount pf amt tiers = Some x"
      by (simp add: getPlan_unfold)
    with r have rx: "r = x" by simp
    have "\<forall>t\<in>set tiers. is_paid pf t \<longrightarrow> js_le (planPrice pf x) (planPrice pf t)"
    proof (intro ballI impI)
      fix t assume t: "t \<in> set tiers" "is_paid pf t"
      then have "t \<in> set (paidPlans pf tiers)" by (simp add: paid_set)
      then have "t \<in> set (x # xs)" using xs by simp
      moreover have "js_le (planPrice pf x) (planPrice pf x)"
        using x(2) by (auto simp: is_paid_def dest: js_gt_zero_not_NaN intro: js_le_refl)
      ultimately show "js_le (planPrice pf x) (planPrice pf t)" using tl by auto
    qed
    with rx xs show ?thesis by simp
  qed
  have nonpos: "r = hd (paidPlans pf tiers)" if h: "js_le amt (Fin 0)"
  proof -
    have "\<forall>t\<in>set tiers. is_paid pf t \<longrightarrow> js_le amt (planPrice pf t)"
    proof (intro ballI impI)
      fix t assume "t \<in> set tiers" "is_paid pf t"
      then have "js_le (Fin 0) (planPrice pf t)"
        by (simp add: is_paid_def js_gt_def js_lt_imp_le)
      with h show "js_le amt (planPrice pf t)" by (rule js_le_trans)
    qed
    with low show ?thesis by blast
  qed
  from r c pos nz low nonpos show ?thesis by blast
qed

lemma find_name:
  "x \<in> planName ` set ts \<Longrightarrow> \<exists>p. find (\<lambda>p. planName p = x) ts = Some p \<and> p \<in> set ts \<and> planName p = x"
  by (cases "find (\<lambda>p. planName p = x) ts") (auto simp: find_None_iff find_Some_iff)

text \<open>
  Claim C4, as amended. For every name \<open>x\<close> that is the name of a tier of the sequence,
  \<open>validateUpgrade x x\<close> succeeds: the transition to the same tier is permitted.
  (For a name that no tier carries, the guard on unknown names comes first and the
  validation fails with "Invalid plan selection".)
\<close>

theorem validateUpgrade_same_plan:
  assumes "x \<in> planName ` set tiers"
  shows "validateUpgrade pf x x tiers
           = \<lparr>Validation.isValid = True, message = ''Upgrade validated successfully''\<rparr>"
proof -
  from find_name[OF assms] obtain p where "find (\<lambda>p. planName p = x) tiers = Some p" by blast
  moreover have "\<not> js_gt (pf (price p)) (pf (price p))"
    by (cases "pf (price p)") (simp_all add: js_gt_def)
  ultimately show ?thesis by (simp add: validateUpgrade_def)
qed


section \<open>The merchant check\<close>


lemma startsWith_iff: "startsWith s t = (\<exists>post. s = t @ post)"
  by (induction s t rule: startsWith.induct) auto

lemma includes_iff: "includes_str s t = (\<exists>pre post. s = pre @ t @ post)"
proof (induction s)
  case Nil
  then show ?case by auto
next
  case (Cons c s)
  show ?case
  proof
    assume "includes_str (c # s) t"
    then consider "startsWith (c # s) t" | "includes_str s t" by auto
    then show "\<exists>pre post. c # s = pre @ t @ post"
    proof cases
      case 1
      then obtain post where "c # s = [] @ t @ post" by (auto simp: startsWith_iff)
      then show ?thesis by blast
    next
      case 2
      with Cons obtain pre post where "s = pre @ t @ post" by blast
      then have "c # s = (c # pre) @ t @ post" by simp
      then show ?thesis by blast
    qed
  next
    assume "\<exists>pre post. c # s = pre @ t @ post"
    then obtain pre post where e: "c # s = pre @ t @ post" by blast
    show "includes_str (c # s) t"
    proof (cases pre)
      case Nil
      with e have "startsWith (c # s) t" by (auto simp: startsWith_iff)
      then show ?thesis by simp
    next
      case (Cons p ps)
      with e have "s = ps @ t @ post" by simp
      with Cons.IH show ?thesis by auto
    qed
  qed
qed

lemma includes_rev: "includes_str (rev s) (rev t) = includes_str s t"
proof -
  have "(\<exists>pre post. rev s = pre @ rev t @ post) = (\<exists>pre post. s = pre @ t @ post)"
  proof
    assume "\<exists>pre post. rev s = pre @ rev t @ post"
    then obtain pre post where "rev s = pre @ rev t @ post" by blast
    then have "rev (rev s) = rev (pre @ rev t @ post)" by simp
    then have "s = rev post @ t @ rev pre" by simp
    then show "\<exists>pre post. s = pre @ t @ post" by blast
  next
    assume "\<exists>pre post. s = pre @ t @ post"
    then obtain pre post where "s = pre @ t @ post" by blast
    then have "rev s = rev post @ rev t @ rev pre" by simp
    then show "\<exists>pre post. rev s = pre @ rev t @ post" by blast
  qed
  then show ?thesis by (simp add: includes_iff)
qed

lemma includes_dropWhile:
  assumes "t \<noteq> []" "\<not> P (hd t)"
  shows "includes_str (dropWhile P s) t = includes_str s t"
proof (induction s)
  case Nil
  then show ?case by simp
next
  case (Cons c s)
  show ?case
  proof (cases "P c")
    case True
    with assms have "\<not> startsWith (c # s) t"
      by (cases t) auto
    with True Cons show ?thesis by simp
  next
    case False
    then show ?thesis by simp
  qed
qed

lemma includes_trimUnits:
  assumes "t \<noteq> []" "\<not> is_space_unit (hd t)" "\<not> is_space_unit (last t)"
  shows "includes_str (trimUnits s) t = includes_str s t"
proof -
  have r: "rev t \<noteq> []" "\<not> is_space_unit (hd (rev t))"
    using assms by (simp_all add: hd_rev)
  have "includes_str (trimUnits s) t
      = includes_str (dropWhile is_space_unit (rev (dropWhile is_space_unit s))) (rev t)"
    unfolding trimUnits_def
    using includes_rev[of "dropWhile is_space_unit (rev (dropWhile is_space_unit s))" "rev t"]
    by simp
  also have "\<dots> = includes_str (rev (dropWhile is_space_unit s)) (rev t)"
    using r by (rule includes_dropWhile[where P = is_space_unit])
  also have "\<dots> = includes_str (dropWhile is_space_unit s) t"
    by (rule includes_rev)
  also have "\<dots> = includes_str s t"
    using assms(1,2) by (rule includes_dropWhile[where P = is_space_unit])
  finally show ?thesis .
qed

lemma starts_ci_iff: "starts_ci s t = (\<exists>mid post. s = mid @ post \<and> list_all2 same_letter mid t)"
proof (induction s t rule: starts_ci.induct)
  case (1 s)
  then show ?case by simp
next
  case (2 d t)
  then show ?case by (simp add: list_all2_Cons2)
next
  case (3 c s d t)
  show ?case
  proof
    assume "starts_ci (c # s) (d # t)"
    with 3 obtain mid post where "same_letter c d" "s = mid @ post" "list_all2 same_letter mid t"
      by auto
    then have "c # s = (c # mid) @ post \<and> list_all2 same_letter (c # mid) (d # t)" by simp
    then show "\<exists>mid post. c # s = mid @ post \<and> list_all2 same_letter mid (d # t)" by blast
  next
    assume "\<exists>mid post. c # s = mid @ post \<and> list_all2 same_letter mid (d # t)"
    then obtain mid post where m: "c # s = mid @ post" "list_all2 same_letter mid (d # t)" by blast
    from m(2) obtain x xs where x: "mid = x # xs" "same_letter x d" "list_all2 same_letter xs t"
      by (auto simp: list_all2_Cons2)
    with m(1) have "c = x" "s = xs @ post" by simp_all
    with x 3 show "starts_ci (c # s) (d # t)" by auto
  qed
qed

lemma contains_ci_iff:
  "contains_ci s t = (\<exists>pre mid post. s = pre @ mid @ post \<and> list_all2 same_letter mid t)"
proof (induction s)
  case Nil
  then show ?case by auto
next
  case (Cons c s)
  show ?case
  proof
    assume "contains_ci (c # s) t"
    then consider "starts_ci (c # s) t" | "contains_ci s t" by auto
    then show "\<exists>pre mid post. c # s = pre @ mid @ post \<and> list_all2 same_letter mid t"
    proof cases
      case 1
      then obtain mid post where "c # s = [] @ mid @ post" "list_all2 same_letter mid t"
        by (auto simp: starts_ci_iff)
      then show ?thesis by blast
    next
      case 2
      with Cons obtain pre mid post where "s = pre @ mid @ post" "list_all2 same_letter mid t"
        by blast
      then have "c # s = (c # pre) @ mid @ post \<and> list_all2 same_letter mid t" by simp
      then show ?thesis by blast
    qed
  next
    assume "\<exists>pre mid post. c # s = pre @ mid @ post \<and> list_all2 same_letter mid t"
    then obtain pre mid post where e: "c # s = pre @ mid @ post" "list_all2 same_letter mid t"
      by blast
    show "contains_ci (c # s) t"
    proof (cases pre)
      case Nil
      with e have "starts_ci (c # s) t" by (auto simp: starts_ci_iff)
      then show ?thesis by simp
    next
      case (Cons p ps)
      with e have "s = ps @ mid @ post" by simp
      with e(2) Cons.IH show ?thesis by auto
    qed
  qed
qed

lemma distinct_upper_table: "distinct (map fst upper_table)"
  by (simp add: upper_table_def case_table_def latin_table_def)

lemma case_table_in_upper: "(c, d) \<in> set case_table \<Longrightarrow> (c, d) \<in> set upper_table"
  by (simp add: upper_table_def)

lemma upper_table_cases:
  "(c, d) \<in> set upper_table \<Longrightarrow> (c, d) \<in> set case_table \<or> d \<in> snd ` set latin_table"
  by (force simp: upper_table_def)

lemma special_not_lower:
  "CHR 0xB5 \<notin> fst ` set case_table" "CHR 0xFF \<notin> fst ` set case_table"
  "CHR 0xDF \<notin> fst ` set case_table" "CHR 0xDF \<notin> snd ` set case_table"
  by (simp_all add: case_table_def)

lemma upperOf_plain:
  assumes c: "c \<noteq> CHR 0xDF" and d: "plain d"
  shows "(upperOf c = [of_char d]) = same_letter c d"
proof -
  from d have d1: "d \<notin> fst ` set upper_table" and d2: "d \<notin> snd ` set latin_table"
    and d3: "d \<noteq> CHR 0xB5" "d \<noteq> CHR 0xFF"
    by (simp_all add: plain_def)
  from d1 have n: "(d, c) \<notin> set case_table" for c
    by (force dest: case_table_in_upper)
  have big: "of_char d \<noteq> (0x39C :: nat)" "of_char d \<noteq> (0x178 :: nat)"
  proof -
    have lt: "of_char d < (256 :: nat)" by (rule nat_of_char_less_256)
    from lt show "of_char d \<noteq> (0x39C :: nat)" by linarith
    from lt show "of_char d \<noteq> (0x178 :: nat)" by linarith
  qed
  consider "c = CHR 0xB5" | "c = CHR 0xFF" | "c \<noteq> CHR 0xB5" "c \<noteq> CHR 0xFF" by blast
  then show ?thesis
  proof cases
    case 1
    then have "upperOf c = [0x39C]" by (simp add: upperOf_def)
    moreover have "(c, d) \<notin> set case_table" using 1 special_not_lower(1) by force
    ultimately show ?thesis using big(1) d3(1) 1 n by (auto simp: same_letter_def)
  next
    case 2
    then have "upperOf c = [0x178]" by (simp add: upperOf_def)
    moreover have "(c, d) \<notin> set case_table" using 2 special_not_lower(2) by force
    ultimately show ?thesis using big(2) d3(2) 2 n by (auto simp: same_letter_def)
  next
    case 3
    with c have u: "upperOf c = [of_char (case map_of upper_table c of Some u \<Rightarrow> u | None \<Rightarrow> c)]"
      by (simp add: upperOf_def)
    show ?thesis
    proof (cases "map_of upper_table c")
      case None
      then have "c \<notin> fst ` set upper_table" by (simp add: map_of_eq_None_iff)
      then have "(c, d) \<notin> set case_table" by (force dest: case_table_in_upper)
      with None u n show ?thesis by (auto simp: same_letter_def)
    next
      case (Some v)
      then have in_tbl: "(c, v) \<in> set upper_table" by (rule map_of_SomeD)
      then have cd: "c \<noteq> d" using d1 by force
      have "(c, d) \<in> set case_table \<longleftrightarrow> v = d"
      proof
        assume "(c, d) \<in> set case_table"
        then have "(c, d) \<in> set upper_table" by (rule case_table_in_upper)
        with distinct_upper_table have "map_of upper_table c = Some d" by (rule map_of_is_SomeI)
        with Some show "v = d" by simp
      next
        assume "v = d"
        with in_tbl d2 upper_table_cases[of c d] show "(c, d) \<in> set case_table" by blast
      qed
      with Some u cd n show ?thesis by (auto simp: same_letter_def)
    qed
  qed
qed

lemma upperOf_single: "c \<noteq> CHR 0xDF \<Longrightarrow> \<exists>u. upperOf c = [u]"
  by (simp add: upperOf_def)

lemma toUpperCase_Cons: "toUpperCase (c # s) = upperOf c @ toUpperCase s"
  by (simp add: toUpperCase_def)

lemma startsWith_units:
  assumes "\<forall>d\<in>set t. plain d" "CHR 0xDF \<notin> set s"
  shows "startsWith (toUpperCase s) (map of_char t) = starts_ci s t"
  using assms
proof (induction s t rule: starts_ci.induct)
  case (1 s)
  then show ?case by simp
next
  case (2 d t)
  then show ?case by (simp add: toUpperCase_def)
next
  case (3 c s d t)
  from "3.prems" have c: "c \<noteq> CHR 0xDF" and d: "plain d" by auto
  from upperOf_single[OF c] obtain u where u: "upperOf c = [u]" by blast
  from upperOf_plain[OF c d] u have "(u = of_char d) = same_letter c d" by simp
  moreover from 3 have "startsWith (toUpperCase s) (map of_char t) = starts_ci s t" by simp
  ultimately show ?case by (simp add: toUpperCase_Cons u)
qed

lemma includes_units:
  assumes "\<forall>d\<in>set t. plain d"
  shows "CHR 0xDF \<notin> set s \<Longrightarrow> includes_str (toUpperCase s) (map of_char t) = contains_ci s t"
proof (induction s)
  case Nil
  then show ?case by (simp add: toUpperCase_def)
next
  case (Cons c s)
  then have c: "c \<noteq> CHR 0xDF" and s: "CHR 0xDF \<notin> set s" by auto
  from upperOf_single[OF c] obtain u where u: "upperOf c = [u]" by blast
  from startsWith_units[OF assms Cons.prems]
  have "startsWith (u # toUpperCase s) (map of_char t) = starts_ci (c # s) t"
    by (simp add: toUpperCase_Cons u)
  with Cons.IH[OF s] show ?case by (simp add: toUpperCase_Cons u)
qed

lemma upper_expand: "toUpperCase (expandSharpS s) = toUpperCase s"
proof (induction s)
  case Nil
  then show ?case by (simp add: expandSharpS_def)
next
  case (Cons c s)
  have "toUpperCase ''SS'' = upperOf (CHR 0xDF)"
    by (simp add: toUpperCase_def upperOf_def upper_table_def case_table_def latin_table_def)
  with Cons show ?case
    by (simp add: expandSharpS_def toUpperCase_def)
qed

lemma expand_free: "CHR 0xDF \<notin> set (expandSharpS s)"
  by (induction s) (auto simp: expandSharpS_def)

lemma expand_id: "CHR 0xDF \<notin> set s \<Longrightarrow> expandSharpS s = s"
  by (induction s) (auto simp: expandSharpS_def)

lemma expand_append: "expandSharpS (a @ b) = expandSharpS a @ expandSharpS b"
  by (simp add: expandSharpS_def)

lemma same_letter_free:
  assumes "list_all2 same_letter mid t" "\<forall>d\<in>set t. \<not> same_letter (CHR 0xDF) d"
  shows "CHR 0xDF \<notin> set mid"
  using assms by (induction rule: list_all2_induct) auto

lemma contains_expand:
  assumes "contains_ci s t" "\<forall>d\<in>set t. \<not> same_letter (CHR 0xDF) d"
  shows "contains_ci (expandSharpS s) t"
proof -
  from assms(1) obtain pre mid post where
    e: "s = pre @ mid @ post" and l: "list_all2 same_letter mid t"
    by (auto simp: contains_ci_iff)
  from same_letter_free[OF l assms(2)] have "expandSharpS mid = mid" by (rule expand_id)
  with e have "expandSharpS s = expandSharpS pre @ mid @ expandSharpS post"
    by (simp add: expand_append)
  with l show ?thesis unfolding contains_ci_iff by blast
qed

lemma marker_units:
  "toUpperCase REQUIRED_MERCHANT_TEXT = map of_char REQUIRED_MERCHANT_TEXT"
  by (simp add: toUpperCase_def upperOf_def REQUIRED_MERCHANT_TEXT_def upper_table_def
      case_table_def latin_table_def)

lemma marker_plain: "\<forall>d\<in>set REQUIRED_MERCHANT_TEXT. plain d"
  by (simp add: REQUIRED_MERCHANT_TEXT_def plain_def upper_table_def case_table_def
      latin_table_def)

lemma marker_no_sharp_s: "\<forall>d\<in>set REQUIRED_MERCHANT_TEXT. \<not> same_letter (CHR 0xDF) d"
  by (simp add: REQUIRED_MERCHANT_TEXT_def same_letter_def case_table_def)

lemma marker_ends:
  "map of_char REQUIRED_MERCHANT_TEXT \<noteq> ([] :: code_unit list)"
  "\<not> is_space_unit (hd (map of_char REQUIRED_MERCHANT_TEXT))"
  "\<not> is_space_unit (last (map of_char REQUIRED_MERCHANT_TEXT))"
  by (simp_all add: REQUIRED_MERCHANT_TEXT_def is_space_unit_def)

text \<open>
  The check of the program, for every message: the upper-cased, trimmed message includes
  the marker exactly when the message, with each sharp s written as SS, contains the
  marker case-insensitively.
\<close>

lemma marker_check:
  "includes_str (trimUnits (toUpperCase msg)) (toUpperCase REQUIRED_MERCHANT_TEXT)
     = contains_ci (expandSharpS msg) REQUIRED_MERCHANT_TEXT"
proof -
  have "includes_str (trimUnits (toUpperCase msg)) (map of_char REQUIRED_MERCHANT_TEXT)
      = includes_str (toUpperCase msg) (map of_char REQUIRED_MERCHANT_TEXT)"
    by (rule includes_trimUnits[OF marker_ends])
  also have "\<dots> = includes_str (toUpperCase (expandSharpS msg)) (map of_char REQUIRED_MERCHANT_TEXT)"
    by (simp add: upper_expand)
  also have "\<dots> = contains_ci (expandSharpS msg) REQUIRED_MERCHANT_TEXT"
    by (rule includes_units[OF marker_plain expand_free])
  finally show ?thesis by (simp add: marker_units)
qed

lemma marker_check_plain:
  assumes "CHR 0xDF \<notin> set msg"
  shows "includes_str (trimUnits (toUpperCase msg)) (toUpperCase REQUIRED_MERCHANT_TEXT)
     = contains_ci msg REQUIRED_MERCHANT_TEXT"
  using assms by (simp add: marker_check expand_id)

lemma marker_check_contains:
  assumes "contains_ci msg REQUIRED_MERCHANT_TEXT"
  shows "includes_str (trimUnits (toUpperCase msg)) (toUpperCase REQUIRED_MERCHANT_TEXT)"
  using contains_expand[OF assms marker_no_sharp_s] by (simp add: marker_check)

text \<open>
  Claim C9. For every message, the validity flag of \<open>verifyMessage\<close>'s result equals the
  \<open>containsRequiredText\<close> flag of its details.
\<close>

theorem verifyMessage_flags_agree:
  "MpesaVerificationResult.isValid (verifyMessage msg)
     = containsRequiredText (details (verifyMessage msg))"
  by (simp add: verifyMessage_def extractMessageDetails_def Let_def)

lemma verifyMessage_without_marker:
  assumes "CHR 0xDF \<notin> set msg" "\<not> contains_ci msg REQUIRED_MERCHANT_TEXT"
  shows "verifyMessage msg =
        \<lparr>MpesaVerificationResult.isValid = False,
         message = (if msg = [] then ''Invalid message format''
                    else ''Invalid payment message - merchant verification failed''),
         details = \<lparr>containsRequiredText = False, merchantName = None, Details.amount = None,
                    transactionId = None, timestamp = None\<rparr>\<rparr>"
  using assms by (simp add: verifyMessage_def Let_def marker_check_plain)

lemma verifyMessage_with_marker:
  assumes "contains_ci msg REQUIRED_MERCHANT_TEXT"
  shows "verifyMessage msg =
        \<lparr>MpesaVerificationResult.isValid = True,
         message = ''Payment message verified successfully'',
         details = extractMessageDetails msg\<rparr>"
proof -
  from assms have "msg \<noteq> []" by (auto simp: REQUIRED_MERCHANT_TEXT_def)
  with marker_check_contains[OF assms] show ?thesis by (simp add: verifyMessage_def Let_def)
qed



section \<open>The bound of an unbounded quantifier\<close>

lemma shrinkingD: "shrinking f \<Longrightarrow> s' \<in> set (f s) \<Longrightarrow> length (fst s') \<le> length (fst s)"
  unfolding shrinking_def by blast

lemma shrinkingI:
  "(\<And>s s'. s' \<in> set (f s) \<Longrightarrow> length (fst s') \<le> length (fst s)) \<Longrightarrow> shrinking f"
  unfolding shrinking_def by blast

lemma rep_m_shrinking:
  "shrinking f \<Longrightarrow> s' \<in> set (rep_m f greedy mn ex s) \<Longrightarrow> length (fst s') \<le> length (fst s)"
proof (induction f greedy mn ex s arbitrary: s' rule: rep_m.induct)
  case (1 f greedy mn ex s)
  from "1.prems"(2) obtain u where u: "u \<in> set (f s)" "s' \<in> set (rep_m f greedy mn ex u)"
    by auto
  from "1.IH"[OF u(1) "1.prems"(1) u(2)] have "length (fst s') \<le> length (fst u)" .
  moreover from "1.prems"(1) u(1) have "length (fst u) \<le> length (fst s)"
    by (rule shrinkingD)
  ultimately show ?case by simp
next
  case (2 f greedy s)
  then show ?case by simp
next
  case (3 f greedy ex s)
  from "3.prems"(2) consider "s' = s"
    | u where "u \<in> set (f s)" "length (fst u) < length (fst s)" "s' \<in> set (rep_m f greedy 0 ex u)"
    by (auto simp: Let_def split: if_splits)
  then show ?case
  proof cases
    case 1
    then show ?thesis by simp
  next
    case 2
    from 2(1,2) have "u \<in> set (filter (\<lambda>s'. length (fst s') < length (fst s)) (f s))" by simp
    from "3.IH"[OF this "3.prems"(1) 2(3)] have "length (fst s') \<le> length (fst u)" .
    with 2(2) show ?thesis by simp
  qed
qed

lemma rx_m_shrinking: "shrinking (rx_m ic r)"
proof (induction r)
  case (Chr a)
  show ?case by (rule shrinkingI) (auto split: list.splits if_splits)
next
  case (Cls its)
  show ?case by (rule shrinkingI) (auto split: list.splits if_splits)
next
  case (Seq a b)
  show ?case
  proof (rule shrinkingI)
    fix s s' assume "s' \<in> set (rx_m ic (Seq a b) s)"
    then obtain u where "u \<in> set (rx_m ic a s)" "s' \<in> set (rx_m ic b u)" by auto
    with Seq have "length (fst u) \<le> length (fst s)" "length (fst s') \<le> length (fst u)"
      by (auto dest: shrinkingD)
    then show "length (fst s') \<le> length (fst s)" by simp
  qed
next
  case (Alt a b)
  show ?case
  proof (rule shrinkingI)
    fix s s' assume "s' \<in> set (rx_m ic (Alt a b) s)"
    then have "s' \<in> set (rx_m ic a s) \<or> s' \<in> set (rx_m ic b s)" by simp
    with Alt show "length (fst s') \<le> length (fst s)" by (auto dest: shrinkingD)
  qed
next
  case (Rep mn mx greedy r)
  show ?case
  proof (rule shrinkingI)
    fix s s' assume "s' \<in> set (rx_m ic (Rep mn mx greedy r) s)"
    then show "length (fst s') \<le> length (fst s)"
      using rep_m_shrinking[OF Rep.IH] by simp
  qed
next
  case (Grp n r)
  show ?case
  proof (rule shrinkingI)
    fix s s' assume "s' \<in> set (rx_m ic (Grp n r) s)"
    then obtain u where "u \<in> set (rx_m ic r s)" "fst s' = fst u" by auto
    with Grp show "length (fst s') \<le> length (fst s)" by (auto dest: shrinkingD)
  qed
next
  case Eol
  show ?case by (rule shrinkingI) (auto split: if_splits)
next
  case Eps
  show ?case by (rule shrinkingI) auto
qed

lemma rep_m_fuel_step:
  assumes "shrinking f"
  shows "length (fst s) \<le> ex \<Longrightarrow> rep_m f greedy 0 (Suc ex) s = rep_m f greedy 0 ex s"
proof (induction ex arbitrary: s)
  case 0
  then have "filter (\<lambda>s'. length (fst s') < length (fst s)) (f s) = []" by simp
  then show ?case by (simp add: Let_def)
next
  case (Suc e)
  have "map (rep_m f greedy 0 (Suc e)) (filter (\<lambda>s'. length (fst s') < length (fst s)) (f s))
      = map (rep_m f greedy 0 e) (filter (\<lambda>s'. length (fst s') < length (fst s)) (f s))"
  proof (rule map_cong[OF refl])
    fix u assume "u \<in> set (filter (\<lambda>s'. length (fst s') < length (fst s)) (f s))"
    with Suc.prems have "length (fst u) \<le> e" by auto
    then show "rep_m f greedy 0 (Suc e) u = rep_m f greedy 0 e u" by (rule Suc.IH)
  qed
  then show ?case by (simp only: rep_m.simps Let_def)
qed

lemma rep_m_fuel_zero:
  assumes "shrinking f" "length (fst s) \<le> ex"
  shows "rep_m f greedy 0 (ex + k) s = rep_m f greedy 0 ex s"
proof (induction k)
  case 0
  then show ?case by simp
next
  case (Suc k)
  from assms(2) have "length (fst s) \<le> ex + k" by simp
  from rep_m_fuel_step[OF assms(1) this] Suc show ?case by simp
qed

lemma rep_m_fuel:
  assumes "shrinking f"
  shows "length (fst s) \<le> ex \<Longrightarrow> rep_m f greedy mn (ex + k) s = rep_m f greedy mn ex s"
proof (induction mn arbitrary: s)
  case 0
  with assms show ?case by (simp add: rep_m_fuel_zero)
next
  case (Suc mn)
  have "map (rep_m f greedy mn (ex + k)) (f s) = map (rep_m f greedy mn ex) (f s)"
  proof (rule map_cong[OF refl])
    fix u assume "u \<in> set (f s)"
    with assms have "length (fst u) \<le> length (fst s)" by (rule shrinkingD)
    with Suc.prems have "length (fst u) \<le> ex" by simp
    then show "rep_m f greedy mn (ex + k) u = rep_m f greedy mn ex u" by (rule Suc.IH)
  qed
  then show ?case by (simp only: rep_m.simps)
qed

lemma unbounded_quantifier:
  "rx_m ic (Rep mn None greedy r) s = rep_m (rx_m ic r) greedy mn (length (fst s) + k) s"
  using rep_m_fuel[OF rx_m_shrinking, of s "length (fst s)" ic r greedy mn k] by simp


section \<open>Transitions, orchestration and the auto-detect extractor\<close>


lemma js_lt_asym: "js_lt a b \<Longrightarrow> \<not> js_lt b a"
  by (cases a; cases b) auto

text \<open>
  Claim C7. For names that both resolve to tiers of the sequence, \<open>validateUpgrade\<close>
  fails with "Cannot downgrade to a lower plan" exactly when the target's price is less
  than the current tier's price, and succeeds otherwise; so a transition from a
  lower-priced to a higher-priced tier succeeds and the reversed one fails with the
  downgrade reason. The validation is a function of its arguments and changes nothing;
  in the orchestration a rejected transition returns the failure with no new plan.
\<close>

theorem validateUpgrade_downgrade:
  assumes "cur \<in> planName ` set tiers" "tgt \<in> planName ` set tiers"
  shows "\<exists>c t. find (\<lambda>p. planName p = cur) tiers = Some c
           \<and> find (\<lambda>p. planName p = tgt) tiers = Some t
           \<and> ((validateUpgrade pf cur tgt tiers
                  = \<lparr>Validation.isValid = False, message = ''Cannot downgrade to a lower plan''\<rparr>)
                = js_lt (planPrice pf t) (planPrice pf c))
           \<and> (Validation.isValid (validateUpgrade pf cur tgt tiers)
                = (\<not> js_lt (planPrice pf t) (planPrice pf c)))
           \<and> (js_lt (planPrice pf c) (planPrice pf t) \<longrightarrow>
                validateUpgrade pf cur tgt tiers
                  = \<lparr>Validation.isValid = True, message = ''Upgrade validated successfully''\<rparr>
                \<and> validateUpgrade pf tgt cur tiers
                  = \<lparr>Validation.isValid = False, message = ''Cannot downgrade to a lower plan''\<rparr>)
           \<and> (\<forall>userId amt r.
                cur = ''Starter'' \<and> getPlanByAmount pf amt tiers = Some r \<and> planName r = tgt
                  \<and> js_lt (planPrice pf t) (planPrice pf c) \<longrightarrow>
                upgradeSteps pf userId amt tiers
                  = \<lparr>success = False, message = ''Cannot downgrade to a lower plan'',
                     newPlan = None, oldPlan = None\<rparr>)"
proof -
  from find_name[OF assms(1)] obtain c where c: "find (\<lambda>p. planName p = cur) tiers = Some c"
    by blast
  from find_name[OF assms(2)] obtain t where t: "find (\<lambda>p. planName p = tgt) tiers = Some t"
    by blast
  have down: "validateUpgrade pf cur tgt tiers
        = \<lparr>Validation.isValid = False, message = ''Cannot downgrade to a lower plan''\<rparr>"
    if "js_lt (planPrice pf t) (planPrice pf c)"
    using that c t by (simp add: validateUpgrade_def js_gt_def planPrice_def)
  have up: "validateUpgrade pf cur tgt tiers
        = \<lparr>Validation.isValid = True, message = ''Upgrade validated successfully''\<rparr>"
    if "\<not> js_lt (planPrice pf t) (planPrice pf c)"
    using that c t by (simp add: validateUpgrade_def js_gt_def planPrice_def)
  have rev: "validateUpgrade pf tgt cur tiers
        = \<lparr>Validation.isValid = False, message = ''Cannot downgrade to a lower plan''\<rparr>"
    if "js_lt (planPrice pf c) (planPrice pf t)"
    using that c t by (simp add: validateUpgrade_def js_gt_def planPrice_def)
  have iff: "(validateUpgrade pf cur tgt tiers
                  = \<lparr>Validation.isValid = False, message = ''Cannot downgrade to a lower plan''\<rparr>)
                = js_lt (planPrice pf t) (planPrice pf c)"
    using down up by (cases "js_lt (planPrice pf t) (planPrice pf c)") auto
  have valid: "Validation.isValid (validateUpgrade pf cur tgt tiers)
                = (\<not> js_lt (planPrice pf t) (planPrice pf c))"
    using down up by (cases "js_lt (planPrice pf t) (planPrice pf c)") auto
  have both: "js_lt (planPrice pf c) (planPrice pf t) \<longrightarrow>
                validateUpgrade pf cur tgt tiers
                  = \<lparr>Validation.isValid = True, message = ''Upgrade validated successfully''\<rparr>
                \<and> validateUpgrade pf tgt cur tiers
                  = \<lparr>Validation.isValid = False, message = ''Cannot downgrade to a lower plan''\<rparr>"
    using up rev by (blast dest: js_lt_asym)
  have steps: "\<forall>userId amt r.
                cur = ''Starter'' \<and> getPlanByAmount pf amt tiers = Some r \<and> planName r = tgt
                  \<and> js_lt (planPrice pf t) (planPrice pf c) \<longrightarrow>
                upgradeSteps pf userId amt tiers
                  = \<lparr>success = False, message = ''Cannot downgrade to a lower plan'',
                     newPlan = None, oldPlan = None\<rparr>"
    using down by (auto simp: upgradeSteps_def Let_def)
  from c t iff valid both steps show ?thesis by blast
qed

text \<open>
  Claim C8. For every input, \<open>processPlanUpgrade\<close> returns a result and never a thrown
  error: an error thrown inside the \<open>try\<close> block becomes the failure result with the
  message "Failed to process plan upgrade", and a result of the block is returned as it is.
\<close>

theorem processPlanUpgrade_never_throws:
  "(\<exists>r. processPlanUpgrade pf userId amt plans = Inr r)
   \<and> (\<forall>e. tryBlock pf userId amt plans = Inl e \<longrightarrow>
        processPlanUpgrade pf userId amt plans
          = Inr \<lparr>success = False, message = ''Failed to process plan upgrade'',
                 newPlan = None, oldPlan = None\<rparr>)
   \<and> (\<forall>r. tryBlock pf userId amt plans = Inr r \<longrightarrow>
        processPlanUpgrade pf userId amt plans = Inr r)"
  by (cases "tryBlock pf userId amt plans") (simp_all add: processPlanUpgrade_def)

lemma tryPatterns_find:
  "tryPatterns pf amb msg ps =
     (case find (\<lambda>p. groupOf 2 (js_match True p msg) = Some (Some correctTillNumber)) ps of
        None \<Rightarrow> None
      | Some p \<Rightarrow> map_option (paymentOf pf amb msg) (js_match True p msg))"
  by (induction ps) (auto simp: groupOf_def split: option.splits)

lemma patterns_need_text: "list_all (\<lambda>p. js_match True p [] = None) patterns"
  by code_simp

text \<open>
  Claim C1, as amended. For every message, \<open>extractPaymentInfo\<close> tries the four templates
  in their fixed order and uses the first template whose match captures the expected till
  number "3566188"; a template that matches with another till number is passed over and
  the later templates are still tried. The extraction is absent exactly when no template
  matches with the expected till number.
\<close>

theorem extractPaymentInfo_first_correct_till:
  "extractPaymentInfo pf amb msg =
     (case find (\<lambda>p. groupOf 2 (js_match True p msg) = Some (Some correctTillNumber)) patterns of
        None \<Rightarrow> None
      | Some p \<Rightarrow> map_option (paymentOf pf amb msg) (js_match True p msg))
   \<and> ((extractPaymentInfo pf amb msg = None)
        = (\<forall>p\<in>set patterns. groupOf 2 (js_match True p msg) \<noteq> Some (Some correctTillNumber)))
   \<and> patterns = [pattern1, pattern2, pattern3, pattern4]
   \<and> correctTillNumber = ''3566188''"
proof -
  let ?ok = "\<lambda>p. groupOf 2 (js_match True p msg) = Some (Some correctTillNumber)"
  have e: "find ?ok patterns = None" if "msg = []"
    using that patterns_need_text by (auto simp: find_None_iff list_all_iff groupOf_def)
  have main: "extractPaymentInfo pf amb msg =
     (case find ?ok patterns of
        None \<Rightarrow> None
      | Some p \<Rightarrow> map_option (paymentOf pf amb msg) (js_match True p msg))"
  proof (cases "msg = []")
    case True
    with e show ?thesis by (simp add: extractPaymentInfo_def)
  next
    case False
    then show ?thesis by (simp add: extractPaymentInfo_def tryPatterns_find)
  qed
  have none: "(extractPaymentInfo pf amb msg = None) = (\<forall>p\<in>set patterns. \<not> ?ok p)"
  proof (cases "find ?ok patterns")
    case None
    with main show ?thesis by (auto simp: find_None_iff)
  next
    case (Some p)
    then have p: "p \<in> set patterns" "?ok p" by (auto simp: find_Some_iff)
    then have "js_match True p msg \<noteq> None" by (auto simp: groupOf_def split: option.splits)
    with main Some p show ?thesis by auto
  qed
  from main none show ?thesis
    by (simp add: patterns_def correctTillNumber_def)
qed

section \<open>The scenarios, evaluated\<close>

text \<open>
  The tier scenarios under the decimal reading of \<open>parseFloat\<close>: the amounts 250, 300,
  5000 and -5 on the tiers priced 0, 250, 500 and 1000.
\<close>


lemmas parse_defs = parseFloat_def unsignedValue_def exponentOf_def digitsValue_def trimStart_def
  is_space_def is_digit_def Let_def

lemma parse_scenario_prices:
  "parseFloat ''0'' = Fin 0" "parseFloat ''250'' = Fin 250"
  "parseFloat ''500'' = Fin 500" "parseFloat ''1000'' = Fin 1000"
  by (simp_all add: parse_defs)

lemmas scenario_simps = scenarioTiers_def plan_def parse_scenario_prices planPrice_def is_paid_def
  js_gt_def js_ge_def js_le_def js_eq_def

lemma scenario_paid:
  "paidPlans parseFloat scenarioTiers
     = [plan ''Silver'' ''250'', plan ''Gold'' ''500'', plan ''Platinum'' ''1000'']"
  by (simp add: paidPlans_def js_sort_def scenario_simps)

lemma scenario_has_paid: "\<exists>t\<in>set scenarioTiers. is_paid parseFloat t"
  by (simp add: scenario_simps)

lemma scenario_resolve:
  "getPlanByAmount parseFloat (Fin 250) scenarioTiers = Some (plan ''Silver'' ''250'')"
  "getPlanByAmount parseFloat (Fin 300) scenarioTiers = Some (plan ''Gold'' ''500'')"
  "getPlanByAmount parseFloat (Fin 5000) scenarioTiers = Some (plan ''Platinum'' ''1000'')"
  "getPlanByAmount parseFloat (Fin (- 5)) scenarioTiers = Some (plan ''Silver'' ''250'')"
  by (simp_all add: getPlanByAmount_def scenario_paid) (simp_all add: scenario_simps)

theorem getPlanByAmount_resolution_witness:
  "getPlanByAmount parseFloat (Fin 250) scenarioTiers = Some (plan ''Silver'' ''250'')
   \<and> js_eq (planPrice parseFloat (plan ''Silver'' ''250'')) (Fin 250)
   \<and> getPlanByAmount parseFloat (Fin 300) scenarioTiers = Some (plan ''Gold'' ''500'')
   \<and> js_ge (planPrice parseFloat (plan ''Gold'' ''500'')) (Fin 300)
   \<and> getPlanByAmount parseFloat (Fin 5000) scenarioTiers = Some (plan ''Platinum'' ''1000'')
   \<and> plan ''Platinum'' ''1000'' = last (paidPlans parseFloat scenarioTiers)
   \<and> getPlanByAmount parseFloat (Fin 250) [plan ''Starter'' ''0''] = None"
proof -
  have h1: "\<exists>t\<in>set scenarioTiers. is_paid parseFloat t \<and> js_eq (planPrice parseFloat t) (Fin 250)"
    by (simp add: scenario_simps)
  have h2: "\<not> (\<exists>t\<in>set scenarioTiers. is_paid parseFloat t \<and> js_eq (planPrice parseFloat t) (Fin 300))
        \<and> (\<exists>t\<in>set scenarioTiers. is_paid parseFloat t \<and> js_ge (planPrice parseFloat t) (Fin 300))"
    by (simp add: scenario_simps)
  have h3: "\<not> (\<exists>t\<in>set scenarioTiers. is_paid parseFloat t \<and> js_ge (planPrice parseFloat t) (Fin 5000))
        \<and> (\<exists>t\<in>set scenarioTiers. is_paid parseFloat t)"
    by (simp add: scenario_simps)
  have h4: "\<not> (\<exists>t\<in>set [plan ''Starter'' ''0'']. is_paid parseFloat t)"
    by (simp add: scenario_simps)
  from h1 getPlanByAmount_resolution[of parseFloat scenarioTiers "Fin 250"]
  have "\<exists>r. getPlanByAmount parseFloat (Fin 250) scenarioTiers = Some r
          \<and> js_eq (planPrice parseFloat r) (Fin 250)" by blast
  then have c1: "js_eq (planPrice parseFloat (plan ''Silver'' ''250'')) (Fin 250)"
    by (simp add: scenario_resolve)
  from h2 getPlanByAmount_resolution[of parseFloat scenarioTiers "Fin 300"]
  have "\<exists>r. getPlanByAmount parseFloat (Fin 300) scenarioTiers = Some r
          \<and> js_ge (planPrice parseFloat r) (Fin 300)" by blast
  then have c2: "js_ge (planPrice parseFloat (plan ''Gold'' ''500'')) (Fin 300)"
    by (simp add: scenario_resolve)
  from h3 getPlanByAmount_resolution[of parseFloat scenarioTiers "Fin 5000"]
  have "\<exists>r. getPlanByAmount parseFloat (Fin 5000) scenarioTiers = Some r
          \<and> r = last (paidPlans parseFloat scenarioTiers)" by blast
  then have c3: "plan ''Platinum'' ''1000'' = last (paidPlans parseFloat scenarioTiers)"
    by (simp add: scenario_resolve)
  from h4 getPlanByAmount_resolution[of parseFloat "[plan ''Starter'' ''0'']" "Fin 250"]
  have c4: "getPlanByAmount parseFloat (Fin 250) [plan ''Starter'' ''0''] = None" by blast
  from c1 c2 c3 c4 show ?thesis by (simp add: scenario_resolve)
qed

theorem getPlanByAmount_monotonic_witness:
  "js_lt (Fin 250) (Fin 300)
   \<and> getPlanByAmount parseFloat (Fin 250) scenarioTiers = Some (plan ''Silver'' ''250'')
   \<and> getPlanByAmount parseFloat (Fin 300) scenarioTiers = Some (plan ''Gold'' ''500'')
   \<and> js_le (planPrice parseFloat (plan ''Silver'' ''250'')) (planPrice parseFloat (plan ''Gold'' ''500''))"
proof -
  have h: "js_lt (Fin 250) (Fin 300)" by simp
  from getPlanByAmount_monotonic[OF h scenario_has_paid]
  have "js_le (planPrice parseFloat (plan ''Silver'' ''250''))
          (planPrice parseFloat (plan ''Gold'' ''500''))"
    by (simp add: scenario_resolve)
  with h show ?thesis by (simp add: scenario_resolve)
qed

theorem getPlanByAmount_paid_total_witness:
  "getPlanByAmount parseFloat (Fin (- 5)) scenarioTiers = Some (plan ''Silver'' ''250'')
   \<and> js_gt (planPrice parseFloat (plan ''Silver'' ''250'')) (Fin 0)
   \<and> plan ''Silver'' ''250'' = hd (paidPlans parseFloat scenarioTiers)"
proof -
  have low: "\<forall>t\<in>set scenarioTiers. is_paid parseFloat t \<longrightarrow> js_le (Fin (- 5)) (planPrice parseFloat t)"
    by (simp add: scenario_simps)
  from getPlanByAmount_paid_total[OF scenario_has_paid, of "Fin (- 5)"] low
  obtain r where r: "getPlanByAmount parseFloat (Fin (- 5)) scenarioTiers = Some r"
    "js_gt (planPrice parseFloat r) (Fin 0)" "r = hd (paidPlans parseFloat scenarioTiers)"
    by blast
  from r(1) have e: "r = plan ''Silver'' ''250''" by (simp add: scenario_resolve)
  from r(1)[unfolded e] r(2)[unfolded e] r(3)[unfolded e] show ?thesis by (intro conjI)
qed

lemma scenario_names:
  "''Starter'' \<in> planName ` set scenarioTiers" "''Gold'' \<in> planName ` set scenarioTiers"
  by (simp_all add: scenarioTiers_def plan_def)

theorem validateUpgrade_same_plan_witness:
  "''Gold'' \<in> planName ` set scenarioTiers
   \<and> validateUpgrade parseFloat ''Gold'' ''Gold'' scenarioTiers
       = \<lparr>Validation.isValid = True, message = ''Upgrade validated successfully''\<rparr>"
  using scenario_names(2) validateUpgrade_same_plan[OF scenario_names(2), of parseFloat]
  by simp

text \<open>
  A name that no tier of the scenario carries: the same-tier transition is rejected.
\<close>

theorem validateUpgrade_unknown_plan:
  "validateUpgrade parseFloat ''Diamond'' ''Diamond'' scenarioTiers
     = \<lparr>Validation.isValid = False, message = ''Invalid plan selection''\<rparr>"
  by (simp add: validateUpgrade_def scenarioTiers_def plan_def)

lemma scenario_find:
  "find (\<lambda>p. planName p = ''Starter'') scenarioTiers = Some (plan ''Starter'' ''0'')"
  "find (\<lambda>p. planName p = ''Gold'') scenarioTiers = Some (plan ''Gold'' ''500'')"
  by (simp_all add: scenarioTiers_def plan_def)

theorem validateUpgrade_downgrade_witness:
  "''Starter'' \<in> planName ` set scenarioTiers \<and> ''Gold'' \<in> planName ` set scenarioTiers
   \<and> js_lt (planPrice parseFloat (plan ''Starter'' ''0'')) (planPrice parseFloat (plan ''Gold'' ''500''))
   \<and> validateUpgrade parseFloat ''Starter'' ''Gold'' scenarioTiers
       = \<lparr>Validation.isValid = True, message = ''Upgrade validated successfully''\<rparr>
   \<and> validateUpgrade parseFloat ''Gold'' ''Starter'' scenarioTiers
       = \<lparr>Validation.isValid = False, message = ''Cannot downgrade to a lower plan''\<rparr>"
proof -
  have lt: "js_lt (planPrice parseFloat (plan ''Starter'' ''0''))
              (planPrice parseFloat (plan ''Gold'' ''500''))"
    by (simp add: scenario_simps)
  from validateUpgrade_downgrade[OF scenario_names, of parseFloat] lt
  have "validateUpgrade parseFloat ''Starter'' ''Gold'' scenarioTiers
       = \<lparr>Validation.isValid = True, message = ''Upgrade validated successfully''\<rparr>
   \<and> validateUpgrade parseFloat ''Gold'' ''Starter'' scenarioTiers
       = \<lparr>Validation.isValid = False, message = ''Cannot downgrade to a lower plan''\<rparr>"
    by (auto simp: scenario_find)
  with lt scenario_names show ?thesis by simp
qed

theorem processPlanUpgrade_never_throws_witness:
  "tryBlock parseFloat ''user-1'' (Fin 250) (Some [Some (plan ''Starter'' ''0''), None]) = Inl TypeError
   \<and> processPlanUpgrade parseFloat ''user-1'' (Fin 250) (Some [Some (plan ''Starter'' ''0''), None])
       = Inr \<lparr>success = False, message = ''Failed to process plan upgrade'',
              newPlan = None, oldPlan = None\<rparr>"
proof -
  have t: "tryBlock parseFloat ''user-1'' (Fin 250) (Some [Some (plan ''Starter'' ''0''), None])
             = Inl TypeError"
    by (simp add: tryBlock_def)
  with processPlanUpgrade_never_throws[of parseFloat "''user-1''" "Fin 250"
      "Some [Some (plan ''Starter'' ''0''), None]"]
  show ?thesis by blast
qed

section \<open>The message scenarios, evaluated\<close>

text \<open>
  The patterns run on the scenario texts; each fact below is computed by the matcher.
\<close>


lemma scenario_details:
  "extractMessageDetails scenarioMessage =
     \<lparr>containsRequiredText = True, merchantName = Some ''Till Number'',
      Details.amount = Some ''250.00'', transactionId = None, timestamp = None\<rparr>"
  by code_simp

lemma scenario_contains: "contains_ci scenarioMessage REQUIRED_MERCHANT_TEXT"
  by code_simp


lemma unmarked_no_sharp_s: "CHR 0xDF \<notin> set unmarkedMessage"
  by (simp add: unmarkedMessage_def)

lemma bare_not_contains:
  "\<not> contains_ci unmarkedMessage REQUIRED_MERCHANT_TEXT"
  by code_simp



theorem verifyMessage_flags_agree_witness:
  "MpesaVerificationResult.isValid (verifyMessage scenarioMessage)
   \<and> containsRequiredText (details (verifyMessage scenarioMessage))
   \<and> \<not> MpesaVerificationResult.isValid (verifyMessage unmarkedMessage)
   \<and> \<not> containsRequiredText (details (verifyMessage unmarkedMessage))"
proof -
  have a: "MpesaVerificationResult.isValid (verifyMessage scenarioMessage)"
    using scenario_contains by (simp add: verifyMessage_with_marker)
  have b: "\<not> MpesaVerificationResult.isValid (verifyMessage unmarkedMessage)"
    using bare_not_contains unmarked_no_sharp_s by (simp add: verifyMessage_without_marker)
  from a b verifyMessage_flags_agree[of scenarioMessage] verifyMessage_flags_agree[of unmarkedMessage]
  show ?thesis by simp
qed

lemma scenario_verify:
  "verifyMessage scenarioMessage =
        \<lparr>MpesaVerificationResult.isValid = True,
         message = ''Payment message verified successfully'',
         details = \<lparr>containsRequiredText = True, merchantName = Some ''Till Number'',
                    Details.amount = Some ''250.00'', transactionId = None, timestamp = None\<rparr>\<rparr>"
  using scenario_contains by (simp add: verifyMessage_with_marker scenario_details)

text \<open>
  The scenario message is valid, and the amount extracted from it keeps its decimals:
  it is the text "250.00", not "250".
\<close>

theorem scenario_amount_keeps_decimals:
  "MpesaVerificationResult.isValid (verifyMessage scenarioMessage)
   \<and> Details.amount (details (verifyMessage scenarioMessage)) = Some ''250.00''
   \<and> Details.amount (details (verifyMessage scenarioMessage)) \<noteq> Some ''250''"
  by (simp add: scenario_verify)

text \<open>
  Claim C5, as amended. For the scenario message with the marker text, \<open>verifyMessage\<close>
  returns a valid result whose extracted amount is the text "250.00"; and
  \<open>getPlanByAmount\<close> on the amount 250 returns a tier priced exactly 250 (the first one of
  the sequence) when such a tier exists.
\<close>

theorem scenario_verify_and_resolve:
  "verifyMessage scenarioMessage =
        \<lparr>MpesaVerificationResult.isValid = True,
         message = ''Payment message verified successfully'',
         details = \<lparr>containsRequiredText = True, merchantName = Some ''Till Number'',
                    Details.amount = Some ''250.00'', transactionId = None, timestamp = None\<rparr>\<rparr>
   \<and> ((\<exists>t\<in>set tiers. planPrice pf t = Fin 250) \<longrightarrow>
        (\<exists>r. getPlanByAmount pf (Fin 250) tiers = Some r \<and> r \<in> set tiers
           \<and> planPrice pf r = Fin 250
           \<and> find (\<lambda>t. planPrice pf t = Fin 250) tiers = Some r))"
proof (intro conjI impI)
  show "verifyMessage scenarioMessage =
        \<lparr>MpesaVerificationResult.isValid = True,
         message = ''Payment message verified successfully'',
         details = \<lparr>containsRequiredText = True, merchantName = Some ''Till Number'',
                    Details.amount = Some ''250.00'', transactionId = None, timestamp = None\<rparr>\<rparr>"
    by (rule scenario_verify)
next
  assume "\<exists>t\<in>set tiers. planPrice pf t = Fin 250"
  then obtain t where t: "t \<in> set tiers" "planPrice pf t = Fin 250" by blast
  then have p: "is_paid pf t" "js_eq (planPrice pf t) (Fin 250)"
    by (simp_all add: is_paid_def js_gt_def js_eq_def)
  from getPlan_exact[OF t(1) p] obtain r where
    r: "getPlanByAmount pf (Fin 250) tiers = Some r" "r \<in> set tiers"
       "js_eq (planPrice pf r) (Fin 250)"
       "find (\<lambda>t. is_paid pf t \<and> js_eq (planPrice pf t) (Fin 250)) tiers = Some r" by blast
  have "(\<lambda>t. is_paid pf t \<and> js_eq (planPrice pf t) (Fin 250)) = (\<lambda>t. planPrice pf t = Fin 250)"
    by (auto simp: fun_eq_iff is_paid_def js_gt_def js_eq_def)
  with r show "\<exists>r. getPlanByAmount pf (Fin 250) tiers = Some r \<and> r \<in> set tiers
           \<and> planPrice pf r = Fin 250
           \<and> find (\<lambda>t. planPrice pf t = Fin 250) tiers = Some r"
    by (simp add: js_eq_def)
qed

theorem scenario_verify_and_resolve_witness:
  "planPrice parseFloat (plan ''Silver'' ''250'') = Fin 250
   \<and> getPlanByAmount parseFloat (Fin 250) scenarioTiers = Some (plan ''Silver'' ''250'')"
proof -
  have h: "\<exists>t\<in>set scenarioTiers. planPrice parseFloat t = Fin 250"
    by (simp add: scenario_simps)
  from scenario_verify_and_resolve[of scenarioTiers parseFloat] h
  obtain r where r: "getPlanByAmount parseFloat (Fin 250) scenarioTiers = Some r"
    "planPrice parseFloat r = Fin 250" by blast
  from r(1) have e: "r = plan ''Silver'' ''250''" by (simp add: scenario_resolve)
  from r(2)[unfolded e] r(1)[unfolded e] show ?thesis by (intro conjI)
qed


lemma groupOf_SomeD: "groupOf n res = Some g \<Longrightarrow> \<exists>mt. res = Some mt \<and> group mt n = g"
  by (cases res) (simp_all add: groupOf_def)

lemma payment_from_groups:
  assumes "groupOf 1 (js_match True p msg) = Some (Some a)"
  shows "map_option (paymentOf pf amb msg) (js_match True p msg)
     = Some \<lparr>MpesMessageInfo.amount = js_round (pf a), transactionId = generatedId amb,
             phoneNumber = extractPhoneNumber msg, timestamp = currentDate amb,
             isValid = True\<rparr>"
proof -
  from groupOf_SomeD[OF assms] obtain mt where
    "js_match True p msg = Some mt" "group mt 1 = Some a" by blast
  then show ?thesis by (simp add: paymentOf_def)
qed

lemma extract_by_find:
  assumes "msg \<noteq> []"
    and "find (\<lambda>p. groupOf 2 (js_match True p msg) = Some (Some correctTillNumber)) patterns = Some p"
    and "groupOf 1 (js_match True p msg) = Some (Some a)"
  shows "extractPaymentInfo pf amb msg
     = Some \<lparr>MpesMessageInfo.amount = js_round (pf a), transactionId = generatedId amb,
             phoneNumber = extractPhoneNumber msg, timestamp = currentDate amb,
             isValid = True\<rparr>"
  using assms(1,2) payment_from_groups[OF assms(3), of pf amb]
  by (simp add: extractPaymentInfo_def tryPatterns_find)

lemma two_templates_tills:
  "groupOf 2 (js_match True pattern1 twoTemplatesMessage) = Some (Some ''111'')"
  "groupOf 2 (js_match True pattern2 twoTemplatesMessage) = Some (Some ''3566188'')"
  "groupOf 1 (js_match True pattern2 twoTemplatesMessage) = Some (Some ''500'')"
  "extractPhoneNumber twoTemplatesMessage = ''Unknown''"
  by code_simp+

lemma paid_to_tills:
  "groupOf 2 (js_match True pattern1 paidToMessage) = None"
  "groupOf 2 (js_match True pattern2 paidToMessage) = Some (Some ''3566188'')"
  "groupOf 1 (js_match True pattern2 paidToMessage) = Some (Some ''500'')"
  "extractPhoneNumber paidToMessage = ''Unknown''"
  by code_simp+

lemma other_till_tills:
  "groupOf 2 (js_match True pattern1 otherTillMessage) = None"
  "groupOf 2 (js_match True pattern2 otherTillMessage) = Some (Some ''1234567'')"
  "groupOf 2 (js_match True pattern3 otherTillMessage) = None"
  "groupOf 2 (js_match True pattern4 otherTillMessage) = None"
  by code_simp+

lemma round_500: "js_round (parseFloat ''500'') = Fin 500"
  by (simp add: parse_scenario_prices)

text \<open>
  On a text where template 1 matches with a foreign till number and template 2 matches
  with the expected one, the extraction is not absent: template 2 is used.
\<close>

theorem extractPaymentInfo_later_template_used:
  "groupOf 2 (js_match True pattern1 twoTemplatesMessage) = Some (Some ''111'')
   \<and> ''111'' \<noteq> correctTillNumber
   \<and> extractPaymentInfo parseFloat scenarioAmbient twoTemplatesMessage
     = Some \<lparr>MpesMessageInfo.amount = Fin 500, transactionId = generatedId scenarioAmbient,
             phoneNumber = ''Unknown'', timestamp = currentDate scenarioAmbient,
             isValid = True\<rparr>"
proof -
  have ne: "twoTemplatesMessage \<noteq> []" by (simp add: twoTemplatesMessage_def)
  have f: "find (\<lambda>p. groupOf 2 (js_match True p twoTemplatesMessage)
                     = Some (Some correctTillNumber)) patterns = Some pattern2"
    by (simp add: patterns_def correctTillNumber_def two_templates_tills)
  from extract_by_find[OF ne f two_templates_tills(3), of parseFloat scenarioAmbient]
  have "extractPaymentInfo parseFloat scenarioAmbient twoTemplatesMessage
     = Some \<lparr>MpesMessageInfo.amount = Fin 500, transactionId = generatedId scenarioAmbient,
             phoneNumber = ''Unknown'', timestamp = currentDate scenarioAmbient,
             isValid = True\<rparr>"
    by (simp only: round_500 two_templates_tills(4))
  moreover have "''111'' \<noteq> correctTillNumber" by (simp add: correctTillNumber_def)
  ultimately show ?thesis using two_templates_tills(1) by (intro conjI)
qed

theorem extractPaymentInfo_first_correct_till_witness:
  "groupOf 2 (js_match True pattern2 paidToMessage) = Some (Some ''3566188'')
   \<and> extractPaymentInfo parseFloat scenarioAmbient paidToMessage
     = Some \<lparr>MpesMessageInfo.amount = Fin 500, transactionId = generatedId scenarioAmbient,
             phoneNumber = ''Unknown'', timestamp = currentDate scenarioAmbient,
             isValid = True\<rparr>
   \<and> groupOf 2 (js_match True pattern2 otherTillMessage) = Some (Some ''1234567'')
   \<and> extractPaymentInfo parseFloat scenarioAmbient otherTillMessage = None"
proof -
  have f: "find (\<lambda>p. groupOf 2 (js_match True p paidToMessage)
                     = Some (Some correctTillNumber)) patterns = Some pattern2"
    by (simp add: patterns_def correctTillNumber_def paid_to_tills)
  have n: "\<forall>p\<in>set patterns. groupOf 2 (js_match True p otherTillMessage)
                     \<noteq> Some (Some correctTillNumber)"
    by (simp add: patterns_def correctTillNumber_def other_till_tills)
  from extractPaymentInfo_first_correct_till[of parseFloat scenarioAmbient paidToMessage]
  have "extractPaymentInfo parseFloat scenarioAmbient paidToMessage
      = map_option (paymentOf parseFloat scenarioAmbient paidToMessage)
          (js_match True pattern2 paidToMessage)"
    by (simp only: f option.case)
  also have "\<dots> = Some \<lparr>MpesMessageInfo.amount = Fin 500, transactionId = generatedId scenarioAmbient,
             phoneNumber = ''Unknown'', timestamp = currentDate scenarioAmbient,
             isValid = True\<rparr>"
    using payment_from_groups[OF paid_to_tills(3), of parseFloat scenarioAmbient]
    by (simp only: round_500 paid_to_tills(4))
  finally have a: "extractPaymentInfo parseFloat scenarioAmbient paidToMessage
     = Some \<lparr>MpesMessageInfo.amount = Fin 500, transactionId = generatedId scenarioAmbient,
             phoneNumber = ''Unknown'', timestamp = currentDate scenarioAmbient,
             isValid = True\<rparr>" .
  from extractPaymentInfo_first_correct_till[of parseFloat scenarioAmbient otherTillMessage] n
  have b: "extractPaymentInfo parseFloat scenarioAmbient otherTillMessage = None"
    by blast
  from a b paid_to_tills(2) other_till_tills(2) show ?thesis by (intro conjI)
qed

end
